theory Spec2Isabelle
  imports Complex_Main
begin

section \<open>The tic-tac-toe engine of \<^verbatim>\<open>tictactoe.py\<close>\<close>

text \<open>
  The theory embeds the class \<^verbatim>\<open>TicTacToeGame\<close> of \<^verbatim>\<open>src/tictactoe.py\<close>: the board, the
  winning combos, move validation, reset, the outcome scan, the heuristic and the
  alpha-beta search. Python integers are \<open>int\<close>, labels are strings, every exception the
  engine can raise is a value of \<open>error\<close>, and the board the search mutates and restores
  is passed through every call and returned.
\<close>

subsection \<open>Errors, moves, scores\<close>

text \<open>
  \<open>IndexError\<close> and \<open>ZeroDivisionError\<close> are the two exceptions the engine's expressions
  can raise. \<open>OutOfFuel\<close> is not a Python exception: the recursion of \<^verbatim>\<open>minimax\<close> is
  modelled with a fuel counter, and \<open>OutOfFuel\<close> is the value of a run that used it up.
\<close>

datatype error = IndexError | ZeroDivisionError | OutOfFuel

text \<open>\<^verbatim>\<open>class Move(NamedTuple): row: int; col: int; label: str = ""\<close>\<close>

datatype move = Move (row: int) (col: int) (label: string)

type_synonym coord = "int \<times> int"

text \<open>
  Scores are Python numbers: the integers the terminal test and the heuristic return,
  and the two floats \<^verbatim>\<open>-float("inf")\<close> and \<^verbatim>\<open>float("inf")\<close> the search starts from.
\<close>

datatype score = NegInf | Fin int | PosInf

instantiation score :: linorder
begin

fun less_eq_score :: "score \<Rightarrow> score \<Rightarrow> bool" where
  "less_eq_score NegInf _ = True"
| "less_eq_score (Fin a) NegInf = False"
| "less_eq_score (Fin a) (Fin b) = (a \<le> b)"
| "less_eq_score (Fin a) PosInf = True"
| "less_eq_score PosInf PosInf = True"
| "less_eq_score PosInf _ = False"

definition less_score :: "score \<Rightarrow> score \<Rightarrow> bool" where
  "less_score a b = (a \<le> b \<and> \<not> b \<le> (a::score))"

instance
proof
  fix x y z :: score
  show "(x < y) = (x \<le> y \<and> \<not> y \<le> x)"
    by (simp add: less_score_def)
  show "x \<le> x"
    by (cases x) simp_all
  show "x \<le> y \<Longrightarrow> y \<le> z \<Longrightarrow> x \<le> z"
    by (cases x; cases y; cases z) simp_all
  show "x \<le> y \<Longrightarrow> y \<le> x \<Longrightarrow> x = y"
    by (cases x; cases y) simp_all
  show "x \<le> y \<or> y \<le> x"
    by (cases x; cases y) auto
qed

end

subsection \<open>Python lists\<close>

text \<open>
  \<^verbatim>\<open>xs[i]\<close>: an index from \<open>-len\<close> up to \<open>-1\<close> counts from the end, an index outside
  \<open>[-len, len)\<close> raises \<^verbatim>\<open>IndexError\<close>.
\<close>

definition py_index :: "nat \<Rightarrow> int \<Rightarrow> error + nat" where
  "py_index n i =
     (if 0 \<le> i \<and> i < int n then Inr (nat i)
      else if - int n \<le> i \<and> i < 0 then Inr (nat (int n + i))
      else Inl IndexError)"

definition getitem :: "'a list \<Rightarrow> int \<Rightarrow> error + 'a" where
  "getitem xs i = (case py_index (length xs) i of Inl e \<Rightarrow> Inl e | Inr k \<Rightarrow> Inr (xs ! k))"

definition setitem :: "'a list \<Rightarrow> int \<Rightarrow> 'a \<Rightarrow> error + 'a list" where
  "setitem xs i v =
     (case py_index (length xs) i of Inl e \<Rightarrow> Inl e | Inr k \<Rightarrow> Inr (xs[k := v]))"

text \<open>\<^verbatim>\<open>range(n)\<close>: empty when \<open>n \<le> 0\<close>.\<close>

definition py_range :: "int \<Rightarrow> int list" where
  "py_range n = map int [0..<nat n]"

text \<open>
  \<^verbatim>\<open>zip(*rows)\<close>: nothing for no rows, otherwise as many tuples as the shortest row is
  long, the \<open>j\<close>-th tuple holding the \<open>j\<close>-th element of every row.
\<close>

definition zip_star :: "'a list list \<Rightarrow> 'a list list" where
  "zip_star rows =
     (if rows = [] then []
      else map (\<lambda>j. map (\<lambda>r. r ! j) rows)
             [0..<foldr min (map length rows) (length (hd rows))])"

text \<open>A list comprehension whose element expression can raise: the first error wins.\<close>

fun collect :: "(error + 'a) list \<Rightarrow> error + 'a list" where
  "collect [] = Inr []"
| "collect (x # xs) =
     (case x of Inl e \<Rightarrow> Inl e
      | Inr v \<Rightarrow> (case collect xs of Inl e \<Rightarrow> Inl e | Inr vs \<Rightarrow> Inr (v # vs)))"

subsection \<open>The game object\<close>

text \<open>
  The fields of \<^verbatim>\<open>TicTacToeGame\<close> that the engine reads and writes. The cyclic player
  iterator and the current player belong to the turn bookkeeping of the window class and
  are read by none of the methods below.
\<close>

record game =
  board_size :: int
  winner_combo :: "coord list"
  current_moves :: "move list list"
  has_winner :: bool
  winning_combos :: "coord list list"

text \<open>
  \<^verbatim>\<open>_get_winning_combos\<close>: the rows of coordinates, their transposition, and the two
  diagonals read off by index.
\<close>

definition get_winning_combos :: "game \<Rightarrow> error + coord list list" where
  "get_winning_combos g =
     (let rows = map (map (\<lambda>m. (row m, col m))) (current_moves g);
          columns = zip_star rows
      in case collect (map (\<lambda>(i, r). getitem r (int i)) (enumerate 0 rows)) of
           Inl e \<Rightarrow> Inl e
         | Inr first_diagonal \<Rightarrow>
             (case collect (map (\<lambda>(j, c). getitem c (int j)) (enumerate 0 (rev columns))) of
                Inl e \<Rightarrow> Inl e
              | Inr second_diagonal \<Rightarrow>
                  Inr (rows @ columns @ [first_diagonal, second_diagonal])))"

text \<open>\<^verbatim>\<open>_setup_board\<close> and \<^verbatim>\<open>__init__\<close>.\<close>

definition fresh_board :: "int \<Rightarrow> move list list" where
  "fresh_board n = map (\<lambda>r. map (\<lambda>c. Move r c []) (py_range n)) (py_range n)"

definition setup_board :: "game \<Rightarrow> error + game" where
  "setup_board g =
     (let g1 = g\<lparr>current_moves := fresh_board (board_size g)\<rparr>
      in case get_winning_combos g1 of
           Inl e \<Rightarrow> Inl e
         | Inr combos \<Rightarrow> Inr (g1\<lparr>winning_combos := combos\<rparr>))"

definition new_game :: "int \<Rightarrow> error + game" where
  "new_game n =
     setup_board \<lparr>board_size = n, winner_combo = [], current_moves = [],
                  has_winner = False, winning_combos = []\<rparr>"

subsection \<open>Cells, validation and reset\<close>

text \<open>\<^verbatim>\<open>self._current_moves[row][col]\<close>, read and assigned.\<close>

definition cell :: "game \<Rightarrow> int \<Rightarrow> int \<Rightarrow> error + move" where
  "cell g r c =
     (case getitem (current_moves g) r of Inl e \<Rightarrow> Inl e | Inr rw \<Rightarrow> getitem rw c)"

definition set_cell :: "game \<Rightarrow> int \<Rightarrow> int \<Rightarrow> move \<Rightarrow> error + game" where
  "set_cell g r c v =
     (case py_index (length (current_moves g)) r of
        Inl e \<Rightarrow> Inl e
      | Inr k \<Rightarrow>
          (case setitem (current_moves g ! k) c v of
             Inl e \<Rightarrow> Inl e
           | Inr rw \<Rightarrow> Inr (g\<lparr>current_moves := (current_moves g)[k := rw]\<rparr>)))"

text \<open>
  \<^verbatim>\<open>is_valid_move\<close>: the cell is read first (and may raise), then the stored flag
  \<^verbatim>\<open>_has_winner\<close>.
\<close>

definition is_valid_move :: "game \<Rightarrow> move \<Rightarrow> error + bool" where
  "is_valid_move g mv =
     (case cell g (row mv) (col mv) of
        Inl e \<Rightarrow> Inl e
      | Inr m \<Rightarrow>
          (let move_was_not_played = (label m = []);
               no_winner = (\<not> has_winner g)
           in Inr (no_winner \<and> move_was_not_played)))"

text \<open>
  \<^verbatim>\<open>reset_game\<close>: every cell of every row is overwritten with the unlabelled move of its
  position in the enumeration; the flag and the stored combo are cleared.
\<close>

definition reset_game :: "game \<Rightarrow> game" where
  "reset_game g =
     g\<lparr>current_moves :=
          map (\<lambda>(r, row_content). map (\<lambda>(c, _). Move (int r) (int c) []) (enumerate 0 row_content))
            (enumerate 0 (current_moves g)),
       has_winner := False,
       winner_combo := []\<rparr>"

subsection \<open>Outcome and heuristic\<close>

text \<open>
  \<^verbatim>\<open>all(self._current_moves[n][m].label == l for n, m in combo)\<close> and the same with
  \<^verbatim>\<open>any\<close>: the generator is consumed up to the first deciding cell.
\<close>

fun all_label :: "game \<Rightarrow> string \<Rightarrow> coord list \<Rightarrow> error + bool" where
  "all_label g l [] = Inr True"
| "all_label g l ((n, m) # rest) =
     (case cell g n m of
        Inl e \<Rightarrow> Inl e
      | Inr mv \<Rightarrow> if label mv = l then all_label g l rest else Inr False)"

fun any_label :: "game \<Rightarrow> string \<Rightarrow> coord list \<Rightarrow> error + bool" where
  "any_label g l [] = Inr False"
| "any_label g l ((n, m) # rest) =
     (case cell g n m of
        Inl e \<Rightarrow> Inl e
      | Inr mv \<Rightarrow> if label mv = l then Inr True else any_label g l rest)"

text \<open>
  \<^verbatim>\<open>get_winner\<close>: the first combo that is all \<^verbatim>\<open>"X"\<close> or all \<^verbatim>\<open>"O"\<close> decides; the
  source returns the string \<^verbatim>\<open>"Y"\<close> for an all-\<^verbatim>\<open>"O"\<close> combo. The winner is
  \<^verbatim>\<open>None\<close>, \<^verbatim>\<open>"X"\<close>, \<^verbatim>\<open>"Y"\<close> or \<^verbatim>\<open>"TIE"\<close>.
\<close>

fun winner_scan :: "game \<Rightarrow> coord list list \<Rightarrow> error + (string \<times> coord list) option" where
  "winner_scan g [] = Inr None"
| "winner_scan g (combo # rest) =
     (case all_label g ''X'' combo of
        Inl e \<Rightarrow> Inl e
      | Inr bx \<Rightarrow>
          if bx then Inr (Some (''X'', combo))
          else (case all_label g ''O'' combo of
                  Inl e \<Rightarrow> Inl e
                | Inr bo \<Rightarrow>
                    if bo then Inr (Some (''Y'', combo)) else winner_scan g rest))"

definition get_winner :: "game \<Rightarrow> error + (string option \<times> coord list)" where
  "get_winner g =
     (case winner_scan g (winning_combos g) of
        Inl e \<Rightarrow> Inl e
      | Inr (Some (w, combo)) \<Rightarrow> Inr (Some w, combo)
      | Inr None \<Rightarrow>
          if list_all (\<lambda>rw. list_all (\<lambda>m. label m \<noteq> []) rw) (current_moves g)
          then Inr (Some ''TIE'', [])
          else Inr (None, []))"

text \<open>\<^verbatim>\<open>heuristic_evaluation\<close>: the loop over the combos with its two counters.\<close>

fun heuristic_loop :: "game \<Rightarrow> coord list list \<Rightarrow> int \<Rightarrow> int \<Rightarrow> error + (int \<times> int)" where
  "heuristic_loop g [] player_score opponent_score = Inr (player_score, opponent_score)"
| "heuristic_loop g (combo # rest) player_score opponent_score =
     (case any_label g ''O'' combo of
        Inl e \<Rightarrow> Inl e
      | Inr player_in_combo \<Rightarrow>
          (case any_label g ''X'' combo of
             Inl e \<Rightarrow> Inl e
           | Inr opponent_in_combo \<Rightarrow>
               if player_in_combo \<and> \<not> opponent_in_combo
               then heuristic_loop g rest (player_score + 1) opponent_score
               else if opponent_in_combo \<and> \<not> player_in_combo
               then heuristic_loop g rest player_score (opponent_score + 1)
               else heuristic_loop g rest player_score opponent_score))"

definition heuristic_evaluation :: "game \<Rightarrow> error + int" where
  "heuristic_evaluation g =
     (case heuristic_loop g (winning_combos g) 0 0 of
        Inl e \<Rightarrow> Inl e
      | Inr (player_score, opponent_score) \<Rightarrow> Inr (player_score - opponent_score))"

subsection \<open>The search\<close>

text \<open>
  The two layers of \<^verbatim>\<open>minimax\<close> are loops over the rows and, inside, over the columns.
  The recursive call is the parameter \<open>child\<close>; it receives the board with the simulated
  move and the current window and returns the score and the board it leaves. The
  \<^verbatim>\<open>break\<close> leaves the column loop only: the row loop goes on with the next row.
\<close>

type_synonym child = "game \<Rightarrow> score \<Rightarrow> score \<Rightarrow> error + (score \<times> game)"

fun max_cols :: "child \<Rightarrow> int \<Rightarrow> int list \<Rightarrow> game \<Rightarrow> score \<Rightarrow> score \<Rightarrow> score
                 \<Rightarrow> error + (game \<times> score \<times> score)" where
  "max_cols child r [] g best_score alpha beta = Inr (g, best_score, alpha)"
| "max_cols child r (c # cs) g best_score alpha beta =
     (case cell g r c of
        Inl e \<Rightarrow> Inl e
      | Inr m \<Rightarrow>
          if label m = [] then
            (case set_cell g r c (Move r c ''O'') of
               Inl e \<Rightarrow> Inl e
             | Inr g1 \<Rightarrow>
                 (case child g1 alpha beta of
                    Inl e \<Rightarrow> Inl e
                  | Inr (score, g2) \<Rightarrow>
                      (case set_cell g2 r c (Move r c []) of
                         Inl e \<Rightarrow> Inl e
                       | Inr g3 \<Rightarrow>
                           (let best_score' = max best_score score;
                                alpha' = max alpha best_score'
                            in if beta \<le> alpha' then Inr (g3, best_score', alpha')
                               else max_cols child r cs g3 best_score' alpha' beta))))
          else max_cols child r cs g best_score alpha beta)"

fun max_rows :: "child \<Rightarrow> int list \<Rightarrow> int list \<Rightarrow> game \<Rightarrow> score \<Rightarrow> score \<Rightarrow> score
                 \<Rightarrow> error + (game \<times> score \<times> score)" where
  "max_rows child [] cols g best_score alpha beta = Inr (g, best_score, alpha)"
| "max_rows child (r # rs) cols g best_score alpha beta =
     (case max_cols child r cols g best_score alpha beta of
        Inl e \<Rightarrow> Inl e
      | Inr (g', best_score', alpha') \<Rightarrow> max_rows child rs cols g' best_score' alpha' beta)"

fun min_cols :: "child \<Rightarrow> int \<Rightarrow> int list \<Rightarrow> game \<Rightarrow> score \<Rightarrow> score \<Rightarrow> score
                 \<Rightarrow> error + (game \<times> score \<times> score)" where
  "min_cols child r [] g best_score alpha beta = Inr (g, best_score, beta)"
| "min_cols child r (c # cs) g best_score alpha beta =
     (case cell g r c of
        Inl e \<Rightarrow> Inl e
      | Inr m \<Rightarrow>
          if label m = [] then
            (case set_cell g r c (Move r c ''X'') of
               Inl e \<Rightarrow> Inl e
             | Inr g1 \<Rightarrow>
                 (case child g1 alpha beta of
                    Inl e \<Rightarrow> Inl e
                  | Inr (score, g2) \<Rightarrow>
                      (case set_cell g2 r c (Move r c []) of
                         Inl e \<Rightarrow> Inl e
                       | Inr g3 \<Rightarrow>
                           (let best_score' = min best_score score;
                                beta' = min beta best_score'
                            in if beta' \<le> alpha then Inr (g3, best_score', beta')
                               else min_cols child r cs g3 best_score' alpha beta'))))
          else min_cols child r cs g best_score alpha beta)"

fun min_rows :: "child \<Rightarrow> int list \<Rightarrow> int list \<Rightarrow> game \<Rightarrow> score \<Rightarrow> score \<Rightarrow> score
                 \<Rightarrow> error + (game \<times> score \<times> score)" where
  "min_rows child [] cols g best_score alpha beta = Inr (g, best_score, beta)"
| "min_rows child (r # rs) cols g best_score alpha beta =
     (case min_cols child r cols g best_score alpha beta of
        Inl e \<Rightarrow> Inl e
      | Inr (g', best_score', beta') \<Rightarrow> min_rows child rs cols g' best_score' alpha beta')"

text \<open>
  \<^verbatim>\<open>minimax(is_maximizing, alpha, beta, max_depth, depth)\<close>. The first argument of the
  model is the fuel: every call uses one unit, and a call without fuel is \<open>OutOfFuel\<close>.
  The terminal test compares the winner with \<^verbatim>\<open>"X"\<close>, \<^verbatim>\<open>"O"\<close> and \<^verbatim>\<open>"TIE"\<close> in the
  order of the source.
\<close>

primrec minimax :: "nat \<Rightarrow> game \<Rightarrow> bool \<Rightarrow> score \<Rightarrow> score \<Rightarrow> int \<Rightarrow> int
                    \<Rightarrow> error + (score \<times> game)" where
  "minimax 0 g is_maximizing alpha beta max_depth depth = Inl OutOfFuel"
| "minimax (Suc fuel) g is_maximizing alpha beta max_depth depth =
     (case get_winner g of
        Inl e \<Rightarrow> Inl e
      | Inr (winner, _) \<Rightarrow>
          if max_depth = depth \<or> winner \<noteq> None then
            (if winner = Some ''X'' then Inr (Fin (- 10 + depth), g)
             else if winner = Some ''O'' then Inr (Fin (10 - depth), g)
             else if winner = Some ''TIE'' then Inr (Fin 0, g)
             else (case heuristic_evaluation g of
                     Inl e \<Rightarrow> Inl e
                   | Inr h \<Rightarrow> Inr (Fin h, g)))
          else if is_maximizing then
            (case max_rows (\<lambda>g1 a b. minimax fuel g1 False a b max_depth (depth + 1))
                    (py_range (board_size g)) (py_range (board_size g)) g NegInf alpha beta of
               Inl e \<Rightarrow> Inl e
             | Inr (g', best_score, _) \<Rightarrow> Inr (best_score, g'))
          else
            (case min_rows (\<lambda>g1 a b. minimax fuel g1 True a b max_depth (depth + 1))
                    (py_range (board_size g)) (py_range (board_size g)) g PosInf alpha beta of
               Inl e \<Rightarrow> Inl e
             | Inr (g', best_score, _) \<Rightarrow> Inr (best_score, g')))"

text \<open>
  \<^verbatim>\<open>int(x)\<close> on a number truncates towards zero. The quotient
  \<^verbatim>\<open>(max_cells - cells_left) / max_cells\<close> is Python's true division; the model computes
  it in exact rational arithmetic, and a zero divisor raises.
\<close>

definition py_int :: "rat \<Rightarrow> int" where
  "py_int q = (if 0 \<le> q then \<lfloor>q\<rfloor> else \<lceil>q\<rceil>)"

definition depth_bound :: "int \<Rightarrow> int \<Rightarrow> error + int" where
  "depth_bound max_cells cells_left =
     (if max_cells = 0 then Inl ZeroDivisionError
      else Inr (2 + py_int ((of_int (max_cells - cells_left) / of_int max_cells) * 2)))"

text \<open>\<^verbatim>\<open>ai(cells_left)\<close>: the same two loops, without a break, keeping the first best move.\<close>

fun ai_cols :: "nat \<Rightarrow> int \<Rightarrow> int \<Rightarrow> int \<Rightarrow> int list \<Rightarrow> game \<Rightarrow> score \<Rightarrow> coord option
                \<Rightarrow> error + (game \<times> score \<times> coord option)" where
  "ai_cols fuel max_cells cells_left r [] g best_score best_move = Inr (g, best_score, best_move)"
| "ai_cols fuel max_cells cells_left r (c # cs) g best_score best_move =
     (case cell g r c of
        Inl e \<Rightarrow> Inl e
      | Inr m \<Rightarrow>
          if label m = [] then
            (case set_cell g r c (Move r c ''O'') of
               Inl e \<Rightarrow> Inl e
             | Inr g1 \<Rightarrow>
                 (case depth_bound max_cells cells_left of
                    Inl e \<Rightarrow> Inl e
                  | Inr max_depth \<Rightarrow>
                      (case minimax fuel g1 False NegInf PosInf max_depth 0 of
                         Inl e \<Rightarrow> Inl e
                       | Inr (score, g2) \<Rightarrow>
                           (case set_cell g2 r c (Move r c []) of
                              Inl e \<Rightarrow> Inl e
                            | Inr g3 \<Rightarrow>
                                if best_score < score
                                then ai_cols fuel max_cells cells_left r cs g3 score (Some (r, c))
                                else ai_cols fuel max_cells cells_left r cs g3 best_score best_move))))
          else ai_cols fuel max_cells cells_left r cs g best_score best_move)"

fun ai_rows :: "nat \<Rightarrow> int \<Rightarrow> int \<Rightarrow> int list \<Rightarrow> int list \<Rightarrow> game \<Rightarrow> score \<Rightarrow> coord option
                \<Rightarrow> error + (game \<times> score \<times> coord option)" where
  "ai_rows fuel max_cells cells_left [] cols g best_score best_move =
     Inr (g, best_score, best_move)"
| "ai_rows fuel max_cells cells_left (r # rs) cols g best_score best_move =
     (case ai_cols fuel max_cells cells_left r cols g best_score best_move of
        Inl e \<Rightarrow> Inl e
      | Inr (g', best_score', best_move') \<Rightarrow>
          ai_rows fuel max_cells cells_left rs cols g' best_score' best_move')"

definition ai :: "nat \<Rightarrow> game \<Rightarrow> int \<Rightarrow> error + (coord option \<times> game)" where
  "ai fuel g cells_left =
     (let max_cells = (board_size g)\<^sup>2
      in case ai_rows fuel max_cells cells_left (py_range (board_size g))
                (py_range (board_size g)) g NegInf None of
           Inl e \<Rightarrow> Inl e
         | Inr (g', _, best_move) \<Rightarrow> Inr (best_move, g'))"

subsection \<open>Notions used in the statements\<close>

text \<open>
  The coordinates stored in a board, the square grid of coordinates of size \<open>k\<close>,
  and the list of combos of a \<open>k \<times> k\<close> board written out: the rows, the columns,
  the main diagonal and the anti-diagonal. A good line of size \<open>k\<close> has \<open>k\<close> cells,
  none twice, all on the board.
\<close>

definition grid :: "nat \<Rightarrow> coord list list" where
  "grid k = map (\<lambda>r. map (\<lambda>c. (int r, int c)) [0..<k]) [0..<k]"

definition coords :: "move list list \<Rightarrow> coord list list" where
  "coords b = map (map (\<lambda>m. (row m, col m))) b"

definition combos_of :: "nat \<Rightarrow> coord list list" where
  "combos_of k =
     grid k
     @ map (\<lambda>c. map (\<lambda>r. (int r, int c)) [0..<k]) [0..<k]
     @ [map (\<lambda>i. (int i, int i)) [0..<k], map (\<lambda>j. (int j, int (k - 1 - j))) [0..<k]]"

definition good_line :: "nat \<Rightarrow> coord list \<Rightarrow> bool" where
  "good_line k line \<longleftrightarrow>
     length line = k \<and> distinct line
     \<and> (\<forall>p \<in> set line. 0 \<le> fst p \<and> fst p < int k \<and> 0 \<le> snd p \<and> snd p < int k)"

text \<open>
  The invariant of the game object. \<^verbatim>\<open>_setup_board\<close> puts \<^verbatim>\<open>Move(row, col)\<close> at
  \<^verbatim>\<open>_current_moves[row][col]\<close> and stores the combos computed from that board; every
  later assignment to a cell, in the engine and in the window class, writes a move that
  carries the coordinates of the cell it is written to. So the coordinates stored in
  the board are always those of the fresh board of the game's size, and the stored
  combos are the ones \<^verbatim>\<open>_get_winning_combos\<close> computes.
\<close>

definition well_formed :: "game \<Rightarrow> bool" where
  "well_formed g \<longleftrightarrow>
     coords (current_moves g) = coords (fresh_board (board_size g))
     \<and> get_winning_combos g = Inr (winning_combos g)"

text \<open>
  Indices \<open>0 \<le> i < board_size\<close>, the label of a cell, and the board after the
  assignment \<^verbatim>\<open>_current_moves[r][c] = Move(r, c, l)\<close> with indices on the board.
  \<open>empties\<close> counts the unlabelled cells, \<open>board_full\<close> is the tie test of
  \<^verbatim>\<open>get_winner\<close>.
\<close>

definition in_board :: "game \<Rightarrow> int \<Rightarrow> bool" where
  "in_board g i \<longleftrightarrow> 0 \<le> i \<and> i < board_size g"

definition label_at :: "game \<Rightarrow> int \<Rightarrow> int \<Rightarrow> string" where
  "label_at g r c = label (current_moves g ! nat r ! nat c)"

definition put :: "game \<Rightarrow> int \<Rightarrow> int \<Rightarrow> string \<Rightarrow> game" where
  "put g r c l =
     g\<lparr>current_moves :=
         (current_moves g)[nat r := (current_moves g ! nat r)[nat c := Move r c l]]\<rparr>"

definition empties :: "game \<Rightarrow> nat" where
  "empties g = sum_list (map (\<lambda>rw. length (filter (\<lambda>m. label m = []) rw)) (current_moves g))"

definition board_full :: "game \<Rightarrow> bool" where
  "board_full g \<longleftrightarrow> list_all (\<lambda>rw. list_all (\<lambda>m. label m \<noteq> []) rw) (current_moves g)"

text \<open>
  A combo all of whose cells carry the label \<open>l\<close>, a combo one of whose cells does,
  and a combo that lies on the board.
\<close>

definition line_all :: "game \<Rightarrow> string \<Rightarrow> coord list \<Rightarrow> bool" where
  "line_all g l combo \<longleftrightarrow> (\<forall>p \<in> set combo. label_at g (fst p) (snd p) = l)"

definition line_any :: "game \<Rightarrow> string \<Rightarrow> coord list \<Rightarrow> bool" where
  "line_any g l combo \<longleftrightarrow> (\<exists>p \<in> set combo. label_at g (fst p) (snd p) = l)"

definition combo_in_board :: "game \<Rightarrow> coord list \<Rightarrow> bool" where
  "combo_in_board g combo \<longleftrightarrow> (\<forall>p \<in> set combo. in_board g (fst p) \<and> in_board g (snd p))"

text \<open>
  Concrete games are written by their labels: \<open>game_of ls\<close> is the game of size
  \<open>length ls\<close> as the constructor builds it, with the label \<open>ls ! r ! c\<close> assigned
  to the cell \<open>(r, c)\<close> the way the window class assigns a played move.
\<close>

definition labelled :: "string list list \<Rightarrow> move list list" where
  "labelled ls =
     map (\<lambda>(r, rw). map (\<lambda>(c, l). Move (int r) (int c) l) (enumerate 0 rw)) (enumerate 0 ls)"

definition game_of :: "string list list \<Rightarrow> game" where
  "game_of ls =
     \<lparr>board_size = int (length ls), winner_combo = [], current_moves = labelled ls,
      has_winner = False, winning_combos = combos_of (length ls)\<rparr>"

text \<open>
  A score that is an integer, and the contract of the recursive call inside a layer of
  the search: called on the board with \<open>mark\<close> on an empty cell, it returns an integer
  score and that same board.
\<close>

definition finite_score :: "score \<Rightarrow> bool" where
  "finite_score s \<longleftrightarrow> (\<exists>i. s = Fin i)"

definition child_ok :: "child \<Rightarrow> game \<Rightarrow> string \<Rightarrow> bool" where
  "child_ok child g mark \<longleftrightarrow>
     (\<forall>r c a b. in_board g r \<and> in_board g c \<and> label_at g r c = [] \<longrightarrow>
        (\<exists>s. child (put g r c mark) a b = Inr (Fin s, put g r c mark)))"

text \<open>
  The candidates of \<^verbatim>\<open>ai\<close> are the empty cells in the order of its two loops, row by
  row and, in a row, column by column. The score of a candidate is the score
  \<^verbatim>\<open>minimax\<close> returns for the board with \<^verbatim>\<open>"O"\<close> on that cell, called as \<^verbatim>\<open>ai\<close>
  calls it. \<open>keep_best\<close> is the update of \<^verbatim>\<open>best_score\<close> and \<^verbatim>\<open>best_move\<close> by one
  candidate.
\<close>

definition move_score :: "nat \<Rightarrow> game \<Rightarrow> int \<Rightarrow> coord \<Rightarrow> score" where
  "move_score fuel g cells_left p =
     (case depth_bound ((board_size g)\<^sup>2) cells_left of
        Inl e \<Rightarrow> NegInf
      | Inr max_depth \<Rightarrow>
          (case minimax fuel (put g (fst p) (snd p) ''O'') False NegInf PosInf max_depth 0 of
             Inl e \<Rightarrow> NegInf
           | Inr (s, _) \<Rightarrow> s))"

definition empty_in_row :: "game \<Rightarrow> int \<Rightarrow> int list \<Rightarrow> coord list" where
  "empty_in_row g r cs = map (Pair r) (filter (\<lambda>c. label_at g r c = []) cs)"

definition empty_cells :: "game \<Rightarrow> coord list" where
  "empty_cells g =
     concat (map (\<lambda>r. empty_in_row g r (py_range (board_size g))) (py_range (board_size g)))"

definition keep_best :: "(coord \<Rightarrow> score) \<Rightarrow> coord \<Rightarrow> score \<times> coord option
                          \<Rightarrow> score \<times> coord option" where
  "keep_best f p st = (if fst st < f p then (f p, Some p) else st)"

section \<open>Properties\<close>

subsection \<open>Python lists and the winning combos\<close>

lemma length_py_range [simp]: "length (py_range n) = nat n"
  by (simp add: py_range_def)

lemma nth_py_range [simp]: "k < nat n \<Longrightarrow> py_range n ! k = int k"
  by (simp add: py_range_def)

lemma set_py_range: "set (py_range n) = {i. 0 \<le> i \<and> i < n}"
proof -
  have "set (py_range n) = int ` {0..<nat n}" by (simp add: py_range_def)
  also have "\<dots> = {i. 0 \<le> i \<and> i < n}"
  proof (rule set_eqI)
    fix i show "i \<in> int ` {0..<nat n} \<longleftrightarrow> i \<in> {i. 0 \<le> i \<and> i < n}"
    proof
      assume "i \<in> int ` {0..<nat n}" then show "i \<in> {i. 0 \<le> i \<and> i < n}" by auto
    next
      assume "i \<in> {i. 0 \<le> i \<and> i < n}"
      then have "i = int (nat i)" "nat i \<in> {0..<nat n}" by auto
      then show "i \<in> int ` {0..<nat n}" by (rule image_eqI)
    qed
  qed
  finally show ?thesis .
qed

lemma distinct_py_range [simp]: "distinct (py_range n)"
  by (simp add: py_range_def distinct_map)

lemma py_index_in_range [simp]: "k < n \<Longrightarrow> py_index n (int k) = Inr k"
  by (simp add: py_index_def)

lemma getitem_in_range [simp]: "k < length xs \<Longrightarrow> getitem xs (int k) = Inr (xs ! k)"
  by (simp add: getitem_def)

lemma setitem_in_range [simp]: "k < length xs \<Longrightarrow> setitem xs (int k) v = Inr (xs[k := v])"
  by (simp add: setitem_def)

lemma collect_map_Inr:
  "(\<And>x. x \<in> set xs \<Longrightarrow> f x = Inr (h x)) \<Longrightarrow> collect (map f xs) = Inr (map h xs)"
  by (induction xs) simp_all

lemma map_enumerate_nth:
  "map (\<lambda>(i, x). F i x) (enumerate 0 xs) = map (\<lambda>i. F i (xs ! i)) [0..<length xs]"
  by (rule nth_equalityI) (simp_all add: nth_enumerate_eq)

lemma foldr_min_const:
  "(\<And>x. x \<in> set xs \<Longrightarrow> f x = (k::nat)) \<Longrightarrow> foldr min (map f xs) k = k"
  by (induction xs) simp_all

lemma zip_star_grid:
  "zip_star (grid k) = map (\<lambda>c. map (\<lambda>r. (int r, int c)) [0..<k]) [0..<k]"
proof (cases "k = 0")
  case True
  then show ?thesis by (simp add: zip_star_def grid_def)
next
  case False
  then have ne: "grid k \<noteq> []" by (simp add: grid_def)
  have hd: "length (hd (grid k)) = k"
    using False by (simp add: grid_def hd_map upt_conv_Cons)
  have "foldr min (map length (grid k)) k = k"
    by (rule foldr_min_const) (auto simp: grid_def)
  then have "zip_star (grid k) = map (\<lambda>j. map (\<lambda>r. r ! j) (grid k)) [0..<k]"
    using ne hd by (simp add: zip_star_def)
  also have "\<dots> = map (\<lambda>c. map (\<lambda>r. (int r, int c)) [0..<k]) [0..<k]"
    by (simp add: grid_def)
  finally show ?thesis .
qed

lemma coords_fresh_board: "coords (fresh_board n) = grid (nat n)"
  by (simp add: coords_def fresh_board_def grid_def py_range_def comp_def)

lemma first_diagonal_grid:
  "collect (map (\<lambda>(i, r). getitem r (int i)) (enumerate 0 (grid k)))
     = Inr (map (\<lambda>i. (int i, int i)) [0..<k])"
proof -
  have "map (\<lambda>(i, r). getitem r (int i)) (enumerate 0 (grid k))
          = map (\<lambda>i. getitem (grid k ! i) (int i)) [0..<k]"
    by (simp add: map_enumerate_nth) (simp add: grid_def)
  moreover have "collect (map (\<lambda>i. getitem (grid k ! i) (int i)) [0..<k])
          = Inr (map (\<lambda>i. (int i, int i)) [0..<k])"
    by (rule collect_map_Inr) (simp add: grid_def)
  ultimately show ?thesis by simp
qed

lemma second_diagonal_grid:
  "collect (map (\<lambda>(j, c). getitem c (int j)) (enumerate 0 (rev (zip_star (grid k)))))
     = Inr (map (\<lambda>j. (int j, int (k - 1 - j))) [0..<k])"
proof -
  let ?cols = "map (\<lambda>c. map (\<lambda>r. (int r, int c)) [0..<k]) [0..<k]"
  have len: "length (rev ?cols) = k" by simp
  have "map (\<lambda>(j, c). getitem c (int j)) (enumerate 0 (rev ?cols))
          = map (\<lambda>j. getitem (rev ?cols ! j) (int j)) [0..<k]"
    using map_enumerate_nth [of "\<lambda>j c. getitem c (int j)" "rev ?cols"] len by simp
  moreover have "collect (map (\<lambda>j. getitem (rev ?cols ! j) (int j)) [0..<k])
          = Inr (map (\<lambda>j. (int j, int (k - 1 - j))) [0..<k])"
  proof (rule collect_map_Inr)
    fix j assume "j \<in> set [0..<k]"
    then have j: "j < k" by simp
    then have "rev ?cols ! j = map (\<lambda>r. (int r, int (k - 1 - j))) [0..<k]"
      by (simp add: rev_nth)
    then show "getitem (rev ?cols ! j) (int j) = Inr (int j, int (k - 1 - j))"
      using j by simp
  qed
  ultimately show ?thesis by (simp add: zip_star_grid)
qed

lemma get_winning_combos_grid:
  assumes "coords (current_moves g) = grid k"
  shows "get_winning_combos g = Inr (combos_of k)"
proof -
  have rows: "map (map (\<lambda>m. (row m, col m))) (current_moves g) = grid k"
    using assms by (simp add: coords_def)
  show ?thesis
    unfolding get_winning_combos_def rows Let_def
    by (simp add: first_diagonal_grid second_diagonal_grid) (simp add: zip_star_grid combos_of_def)
qed

lemma new_game_eq:
  "new_game n = Inr \<lparr>board_size = n, winner_combo = [], current_moves = fresh_board n,
                      has_winner = False, winning_combos = combos_of (nat n)\<rparr>"
proof -
  let ?g1 = "\<lparr>board_size = n, winner_combo = [], current_moves = fresh_board n,
              has_winner = False, winning_combos = []\<rparr>"
  have "get_winning_combos ?g1 = Inr (combos_of (nat n))"
    by (rule get_winning_combos_grid) (simp add: coords_fresh_board)
  then show ?thesis
    by (simp add: new_game_def setup_board_def)
qed

lemma length_combos_of: "length (combos_of k) = 2 * k + 2"
  by (simp add: combos_of_def grid_def)

lemma inj_on_int_pair_fst: "inj_on (\<lambda>j. (int j, f j)) A"
  by (rule inj_onI) simp

lemma inj_on_int_pair_snd: "inj_on (\<lambda>j. (f j, int j)) A"
  by (rule inj_onI) simp

lemma good_line_map:
  assumes "inj_on f {0..<k}"
    and "\<And>j. j < k \<Longrightarrow> 0 \<le> fst (f j) \<and> fst (f j) < int k \<and> 0 \<le> snd (f j) \<and> snd (f j) < int k"
  shows "good_line k (map f [0..<k])"
  unfolding good_line_def
proof (intro conjI)
  show "length (map f [0..<k]) = k" by simp
  show "distinct (map f [0..<k])" using assms(1) by (simp add: distinct_map)
  show "\<forall>p \<in> set (map f [0..<k]). 0 \<le> fst p \<and> fst p < int k \<and> 0 \<le> snd p \<and> snd p < int k"
  proof
    fix p assume "p \<in> set (map f [0..<k])"
    then obtain j where "j < k" "p = f j" by auto
    with assms(2) [of j] show "0 \<le> fst p \<and> fst p < int k \<and> 0 \<le> snd p \<and> snd p < int k"
      by simp
  qed
qed

lemma good_line_row: "r < k \<Longrightarrow> good_line k (map (\<lambda>c. (int r, int c)) [0..<k])"
  by (rule good_line_map) (simp_all add: inj_on_int_pair_snd)

lemma good_line_col: "c < k \<Longrightarrow> good_line k (map (\<lambda>r. (int r, int c)) [0..<k])"
  by (rule good_line_map) (simp_all add: inj_on_int_pair_fst)

lemma good_line_d1: "good_line k (map (\<lambda>i. (int i, int i)) [0..<k])"
  by (rule good_line_map) (simp_all add: inj_on_int_pair_fst)

lemma good_line_d2: "good_line k (map (\<lambda>j. (int j, int (k - Suc j))) [0..<k])"
  by (rule good_line_map) (simp_all add: inj_on_int_pair_fst)

lemma combos_of_line: "\<forall>line \<in> set (combos_of k). good_line k line"
  unfolding combos_of_def grid_def
  by (simp add: ball_Un good_line_row good_line_col good_line_d1 good_line_d2)

lemma filter_nonempty_length: "x \<in> set xs \<Longrightarrow> P x \<Longrightarrow> 1 \<le> length (filter P xs)"
  by (induction xs) auto

lemma combos_of_cover:
  assumes "r < k" "c < k"
  shows "2 \<le> length (filter (\<lambda>line. (int r, int c) \<in> set line) (combos_of k))"
proof -
  let ?P = "\<lambda>line. (int r, int c) \<in> set line"
  have "1 \<le> length (filter ?P (grid k))"
  proof (rule filter_nonempty_length)
    show "map (\<lambda>c. (int r, int c)) [0..<k] \<in> set (grid k)"
      using assms by (auto simp: grid_def intro!: image_eqI [where x = r])
    show "?P (map (\<lambda>c. (int r, int c)) [0..<k])"
      using assms by simp
  qed
  moreover have "1 \<le> length (filter ?P (map (\<lambda>c. map (\<lambda>r. (int r, int c)) [0..<k]) [0..<k]))"
  proof (rule filter_nonempty_length)
    show "map (\<lambda>r. (int r, int c)) [0..<k]
            \<in> set (map (\<lambda>c. map (\<lambda>r. (int r, int c)) [0..<k]) [0..<k])"
      using assms by (auto intro!: image_eqI [where x = c])
    show "?P (map (\<lambda>r. (int r, int c)) [0..<k])"
      using assms by simp
  qed
  ultimately show ?thesis
    unfolding combos_of_def filter_append length_append by linarith
qed

subsection \<open>Well-formed games\<close>

lemma grid_nth: "r < k \<Longrightarrow> c < k \<Longrightarrow> grid k ! r ! c = (int r, int c)"
  by (simp add: grid_def)

lemma coords_grid_shape:
  assumes "coords b = grid k"
  shows "length b = k"
    and "r < k \<Longrightarrow> length (b ! r) = k"
    and "r < k \<Longrightarrow> c < k \<Longrightarrow> row (b ! r ! c) = int r \<and> col (b ! r ! c) = int c"
proof -
  have "length (coords b) = k" using assms by (simp add: grid_def)
  then show len: "length b = k" by (simp add: coords_def)
  { assume r: "r < k"
    have "length (coords b ! r) = k" using assms r by (simp add: grid_def)
    then show lenr: "length (b ! r) = k" using r len by (simp add: coords_def)
    assume c: "c < k"
    have "coords b ! r ! c = (int r, int c)" using assms r c by (simp add: grid_nth)
    then show "row (b ! r ! c) = int r \<and> col (b ! r ! c) = int c"
      using r c len lenr by (simp add: coords_def) }
qed

lemma wf_coords: "well_formed g \<Longrightarrow> coords (current_moves g) = grid (nat (board_size g))"
  by (simp add: well_formed_def coords_fresh_board)

lemma wf_combos: "well_formed g \<Longrightarrow> winning_combos g = combos_of (nat (board_size g))"
  using get_winning_combos_grid [of g "nat (board_size g)"]
  by (simp add: well_formed_def coords_fresh_board)

lemma well_formed_iff:
  "well_formed g \<longleftrightarrow>
     coords (current_moves g) = grid (nat (board_size g))
     \<and> winning_combos g = combos_of (nat (board_size g))"
  using get_winning_combos_grid [of g "nat (board_size g)"]
  by (auto simp: well_formed_def coords_fresh_board)

lemma wf_length:
  assumes "well_formed g"
  shows "length (current_moves g) = nat (board_size g)"
  using coords_grid_shape(1) [OF wf_coords [OF assms]] .

lemma wf_length_row:
  assumes "well_formed g" "in_board g r"
  shows "length (current_moves g ! nat r) = nat (board_size g)"
  using coords_grid_shape(2) [OF wf_coords [OF assms(1)], of "nat r"] assms(2)
  by (simp add: in_board_def)

lemma wf_cell_coords:
  assumes "well_formed g" "in_board g r" "in_board g c"
  shows "row (current_moves g ! nat r ! nat c) = r" "col (current_moves g ! nat r ! nat c) = c"
  using coords_grid_shape(3) [OF wf_coords [OF assms(1)], of "nat r" "nat c"] assms(2,3)
  by (simp_all add: in_board_def)

lemma getitem_nat: "0 \<le> i \<Longrightarrow> i < int (length xs) \<Longrightarrow> getitem xs i = Inr (xs ! nat i)"
  by (simp add: getitem_def py_index_def)

lemma setitem_nat: "0 \<le> i \<Longrightarrow> i < int (length xs) \<Longrightarrow> setitem xs i v = Inr (xs[nat i := v])"
  by (simp add: setitem_def py_index_def)

lemma cell_wf:
  assumes "well_formed g" "in_board g r" "in_board g c"
  shows "cell g r c = Inr (current_moves g ! nat r ! nat c)"
proof -
  have "getitem (current_moves g) r = Inr (current_moves g ! nat r)"
    using assms(2) wf_length [OF assms(1)] by (intro getitem_nat) (simp_all add: in_board_def)
  moreover have "getitem (current_moves g ! nat r) c = Inr (current_moves g ! nat r ! nat c)"
    using assms(3) wf_length_row [OF assms(1,2)] by (intro getitem_nat) (simp_all add: in_board_def)
  ultimately show ?thesis by (simp add: cell_def)
qed

lemma set_cell_wf:
  assumes "well_formed g" "in_board g r" "in_board g c"
  shows "set_cell g r c (Move r c l) = Inr (put g r c l)"
proof -
  have "py_index (length (current_moves g)) r = Inr (nat r)"
    using assms(2) wf_length [OF assms(1)] by (simp add: py_index_def in_board_def)
  moreover have "setitem (current_moves g ! nat r) c (Move r c l)
                   = Inr ((current_moves g ! nat r)[nat c := Move r c l])"
    using assms(3) wf_length_row [OF assms(1,2)] by (intro setitem_nat) (simp_all add: in_board_def)
  ultimately show ?thesis by (simp add: set_cell_def put_def)
qed

lemma coords_update:
  assumes "r < length b" "c < length (b ! r)" "row v = row (b ! r ! c)" "col v = col (b ! r ! c)"
  shows "coords (b[r := (b ! r)[c := v]]) = coords b"
proof -
  have "map (\<lambda>m. (row m, col m)) ((b ! r)[c := v]) = map (\<lambda>m. (row m, col m)) (b ! r)"
    using assms(2,3,4) by (simp add: map_update list_update_same_conv)
  then show ?thesis
    using assms(1) by (simp add: coords_def map_update list_update_same_conv)
qed

lemma put_fields [simp]:
  "board_size (put g r c l) = board_size g"
  "winning_combos (put g r c l) = winning_combos g"
  "has_winner (put g r c l) = has_winner g"
  "winner_combo (put g r c l) = winner_combo g"
  by (simp_all add: put_def)

lemma in_board_put [simp]: "in_board (put g r c l) i = in_board g i"
  by (simp add: in_board_def)

lemma wf_put:
  assumes "well_formed g" "in_board g r" "in_board g c"
  shows "well_formed (put g r c l)"
proof -
  have "coords (current_moves (put g r c l)) = coords (current_moves g)"
    unfolding put_def using assms wf_length [OF assms(1)] wf_length_row [OF assms(1,2)]
      wf_cell_coords [OF assms]
    by (simp add: coords_update in_board_def)
  then show ?thesis
    using assms(1) by (simp add: well_formed_iff)
qed

lemma label_at_put:
  assumes "well_formed g" "in_board g r" "in_board g c" "in_board g r'" "in_board g c'"
  shows "label_at (put g r c l) r' c' = (if r' = r \<and> c' = c then l else label_at g r' c')"
proof -
  have "nat r < length (current_moves g)" "nat r' < length (current_moves g)"
    using assms wf_length [OF assms(1)] by (simp_all add: in_board_def)
  moreover have "nat c < length (current_moves g ! nat r)"
    using assms wf_length_row [OF assms(1,2)] by (simp add: in_board_def)
  moreover have "nat r = nat r' \<longleftrightarrow> r' = r" "nat c = nat c' \<longleftrightarrow> c' = c"
    using assms by (auto simp: in_board_def)
  ultimately show ?thesis
    by (auto simp: label_at_def put_def nth_list_update)
qed

lemma put_undo:
  assumes "well_formed g" "in_board g r" "in_board g c" "label_at g r c = []"
  shows "put (put g r c l) r c [] = g"
proof -
  let ?b = "current_moves g"
  have r: "nat r < length ?b" using assms wf_length [OF assms(1)] by (simp add: in_board_def)
  have "?b ! nat r ! nat c = Move r c []"
    using wf_cell_coords [OF assms(1,2,3)] assms(4)
    by (cases "?b ! nat r ! nat c") (simp add: label_at_def)
  then have "(?b ! nat r)[nat c := Move r c []] = ?b ! nat r"
    by (metis list_update_id)
  then show ?thesis
    using r by (simp add: put_def list_update_same_conv)
qed

lemma all_label_wf:
  assumes "well_formed g" "combo_in_board g combo"
  shows "all_label g l combo = Inr (line_all g l combo)"
  using assms(2)
proof (induction combo)
  case Nil
  show ?case by (simp add: line_all_def)
next
  case (Cons p combo)
  obtain n m where p: "p = (n, m)" by (cases p)
  from Cons.prems have inb: "in_board g n" "in_board g m" and rest: "combo_in_board g combo"
    by (simp_all add: combo_in_board_def p)
  have "cell g n m = Inr (current_moves g ! nat n ! nat m)"
    by (rule cell_wf [OF assms(1) inb])
  then show ?case
    using Cons.IH [OF rest] by (simp add: p line_all_def label_at_def)
qed

lemma any_label_wf:
  assumes "well_formed g" "combo_in_board g combo"
  shows "any_label g l combo = Inr (line_any g l combo)"
  using assms(2)
proof (induction combo)
  case Nil
  show ?case by (simp add: line_any_def)
next
  case (Cons p combo)
  obtain n m where p: "p = (n, m)" by (cases p)
  from Cons.prems have inb: "in_board g n" "in_board g m" and rest: "combo_in_board g combo"
    by (simp_all add: combo_in_board_def p)
  have "cell g n m = Inr (current_moves g ! nat n ! nat m)"
    by (rule cell_wf [OF assms(1) inb])
  then show ?case
    using Cons.IH [OF rest] by (simp add: p line_any_def label_at_def)
qed

lemma wf_combo_in_board:
  assumes "well_formed g" "combo \<in> set (winning_combos g)"
  shows "combo_in_board g combo" and "length combo = nat (board_size g)"
proof -
  have "good_line (nat (board_size g)) combo"
    using assms combos_of_line [of "nat (board_size g)"] by (simp add: wf_combos)
  then have len: "length combo = nat (board_size g)"
    and rng: "\<And>p. p \<in> set combo \<Longrightarrow> 0 \<le> fst p \<and> fst p < int (nat (board_size g))
                                      \<and> 0 \<le> snd p \<and> snd p < int (nat (board_size g))"
    by (simp_all add: good_line_def)
  show "length combo = nat (board_size g)" by (rule len)
  show "combo_in_board g combo"
    unfolding combo_in_board_def in_board_def
  proof
    fix p assume "p \<in> set combo"
    from rng [OF this]
    show "(0 \<le> fst p \<and> fst p < board_size g) \<and> 0 \<le> snd p \<and> snd p < board_size g"
      by linarith
  qed
qed

lemma winner_scan_wf:
  assumes "well_formed g" "\<forall>combo \<in> set cs. combo_in_board g combo"
  shows "winner_scan g cs =
           Inr (case find (\<lambda>combo. line_all g ''X'' combo \<or> line_all g ''O'' combo) cs of
                  None \<Rightarrow> None
                | Some combo \<Rightarrow> Some (if line_all g ''X'' combo then ''X'' else ''Y'', combo))"
  using assms(2)
proof (induction cs)
  case Nil
  show ?case by simp
next
  case (Cons combo cs)
  then have inb: "combo_in_board g combo" and rest: "\<forall>combo \<in> set cs. combo_in_board g combo"
    by simp_all
  show ?case
    using Cons.IH [OF rest]
    by (simp add: all_label_wf [OF assms(1) inb])
qed

lemma get_winner_wf:
  assumes "well_formed g"
  shows "get_winner g =
           Inr (case find (\<lambda>combo. line_all g ''X'' combo \<or> line_all g ''O'' combo)
                       (winning_combos g) of
                  Some combo \<Rightarrow> (Some (if line_all g ''X'' combo then ''X'' else ''Y''), combo)
                | None \<Rightarrow> if board_full g then (Some ''TIE'', []) else (None, []))"
proof -
  have "\<forall>combo \<in> set (winning_combos g). combo_in_board g combo"
    using wf_combo_in_board(1) [OF assms] by blast
  from winner_scan_wf [OF assms this] show ?thesis
    by (simp add: get_winner_def board_full_def split: option.split)
qed

lemma heuristic_loop_wf:
  assumes "well_formed g" "\<forall>combo \<in> set cs. combo_in_board g combo"
  shows "heuristic_loop g cs ps os =
           Inr (ps + int (length (filter (\<lambda>combo. line_any g ''O'' combo \<and> \<not> line_any g ''X'' combo) cs)),
                os + int (length (filter (\<lambda>combo. line_any g ''X'' combo \<and> \<not> line_any g ''O'' combo) cs)))"
  using assms(2)
proof (induction cs arbitrary: ps os)
  case Nil
  show ?case by simp
next
  case (Cons combo cs)
  then have inb: "combo_in_board g combo" and rest: "\<forall>combo \<in> set cs. combo_in_board g combo"
    by simp_all
  show ?case
    by (simp add: any_label_wf [OF assms(1) inb] Cons.IH [OF rest])
qed

lemma heuristic_evaluation_wf:
  assumes "well_formed g"
  shows "heuristic_evaluation g =
           Inr (int (length (filter (\<lambda>combo. line_any g ''O'' combo \<and> \<not> line_any g ''X'' combo)
                               (winning_combos g)))
                - int (length (filter (\<lambda>combo. line_any g ''X'' combo \<and> \<not> line_any g ''O'' combo)
                               (winning_combos g))))"
proof -
  have "\<forall>combo \<in> set (winning_combos g). combo_in_board g combo"
    using wf_combo_in_board(1) [OF assms] by blast
  from heuristic_loop_wf [OF assms this, of 0 0] show ?thesis
    by (simp add: heuristic_evaluation_def)
qed

subsection \<open>Reset, validation, the full board and the terminal test\<close>

lemma reset_game_fields [simp]:
  "board_size (reset_game g) = board_size g"
  "winning_combos (reset_game g) = winning_combos g"
  "has_winner (reset_game g) = False"
  "winner_combo (reset_game g) = []"
  by (simp_all add: reset_game_def)









lemma board_full_label_at:
  assumes "well_formed g" "board_full g" "in_board g r" "in_board g c"
  shows "label_at g r c \<noteq> []"
proof -
  have "nat r < length (current_moves g)"
    using assms(3) wf_length [OF assms(1)] by (simp add: in_board_def)
  moreover have "nat c < length (current_moves g ! nat r)"
    using assms(4) wf_length_row [OF assms(1,3)] by (simp add: in_board_def)
  ultimately show ?thesis
    using assms(2) by (simp add: board_full_def label_at_def list_all_length)
qed

lemma ai_cols_full:
  assumes "well_formed g" "board_full g" "in_board g r" "\<forall>c \<in> set cs. in_board g c"
  shows "ai_cols fuel max_cells cells_left r cs g best_score best_move
           = Inr (g, best_score, best_move)"
  using assms(4)
proof (induction cs)
  case Nil
  show ?case by simp
next
  case (Cons c cs)
  then have c: "in_board g c" and rest: "\<forall>c \<in> set cs. in_board g c" by simp_all
  have "label (current_moves g ! nat r ! nat c) \<noteq> []"
    using board_full_label_at [OF assms(1,2,3) c] by (simp add: label_at_def)
  then show ?case
    using Cons.IH [OF rest] by (simp add: cell_wf [OF assms(1,3) c])
qed

lemma ai_rows_full:
  assumes "well_formed g" "board_full g" "\<forall>r \<in> set rs. in_board g r" "\<forall>c \<in> set cs. in_board g c"
  shows "ai_rows fuel max_cells cells_left rs cs g best_score best_move
           = Inr (g, best_score, best_move)"
  using assms(3)
proof (induction rs)
  case Nil
  show ?case by simp
next
  case (Cons r rs)
  then have r: "in_board g r" and rest: "\<forall>r \<in> set rs. in_board g r" by simp_all
  show ?case
    using Cons.IH [OF rest] by (simp add: ai_cols_full [OF assms(1,2) r assms(4)])
qed

lemma in_board_py_range: "\<forall>i \<in> set (py_range (board_size g)). in_board g i"
  by (simp add: set_py_range in_board_def)


lemma getitem_wrap:
  "- int (length xs) \<le> i \<Longrightarrow> i < int (length xs)
     \<Longrightarrow> getitem xs i = Inr (xs ! nat (i mod int (length xs)))"
proof -
  assume lo: "- int (length xs) \<le> i" and hi: "i < int (length xs)"
  show ?thesis
  proof (cases "0 \<le> i")
    case True
    with hi show ?thesis by (simp add: getitem_def py_index_def)
  next
    case False
    then have neg: "i < 0" by simp
    have "(i + int (length xs)) mod int (length xs) = i + int (length xs)"
      using lo neg by (intro mod_pos_pos_trivial) simp_all
    then have "i mod int (length xs) = int (length xs) + i"
      by (simp add: add.commute)
    with lo neg show ?thesis by (simp add: getitem_def py_index_def)
  qed
qed

lemma getitem_out_of_range:
  "i < - int (length xs) \<or> int (length xs) \<le> i \<Longrightarrow> getitem xs i = Inl IndexError"
  by (auto simp: getitem_def py_index_def)

lemma mod_in_board:
  assumes "- board_size g \<le> i" "i < board_size g"
  shows "in_board g (i mod board_size g)"
  using assms by (simp add: in_board_def)

lemma is_valid_move_wrap:
  assumes wf: "well_formed g"
    and r: "- board_size g \<le> row mv" "row mv < board_size g"
    and c: "- board_size g \<le> col mv" "col mv < board_size g"
  shows "is_valid_move g mv
           = Inr (\<not> has_winner g
                  \<and> label_at g (row mv mod board_size g) (col mv mod board_size g) = [])"
proof -
  let ?n = "board_size g"
  have pos: "0 < ?n" using r by linarith
  have len: "int (length (current_moves g)) = ?n"
    using wf_length [OF wf] pos by simp
  have g1: "getitem (current_moves g) (row mv) = Inr (current_moves g ! nat (row mv mod ?n))"
    using getitem_wrap [of "current_moves g" "row mv"] r by (simp add: len)
  have lenr: "int (length (current_moves g ! nat (row mv mod ?n))) = ?n"
    using wf_length_row [OF wf mod_in_board [OF r]] pos by simp
  have g2: "getitem (current_moves g ! nat (row mv mod ?n)) (col mv)
              = Inr (current_moves g ! nat (row mv mod ?n) ! nat (col mv mod ?n))"
    using getitem_wrap [of "current_moves g ! nat (row mv mod ?n)" "col mv"] c by (simp add: lenr)
  show ?thesis
    by (simp add: is_valid_move_def cell_def g1 g2 label_at_def)
qed

lemma is_valid_move_fault:
  assumes wf: "well_formed g"
    and out: "row mv < - board_size g \<or> board_size g \<le> row mv
              \<or> col mv < - board_size g \<or> board_size g \<le> col mv"
  shows "is_valid_move g mv = Inl IndexError"
proof (cases "row mv < - int (length (current_moves g)) \<or> int (length (current_moves g)) \<le> row mv")
  case True
  then show ?thesis
    by (simp add: is_valid_move_def cell_def getitem_out_of_range)
next
  case False
  then have r': "- int (length (current_moves g)) \<le> row mv" "row mv < int (length (current_moves g))"
    by simp_all
  then have pos: "0 < board_size g" using wf_length [OF wf] by (cases "0 \<le> board_size g") simp_all
  then have len: "int (length (current_moves g)) = board_size g"
    using wf_length [OF wf] by simp
  from r' have r: "- board_size g \<le> row mv" "row mv < board_size g" by (simp_all add: len)
  have g1: "getitem (current_moves g) (row mv) = Inr (current_moves g ! nat (row mv mod board_size g))"
    using getitem_wrap [OF r'] by (simp add: len)
  have lenr: "int (length (current_moves g ! nat (row mv mod board_size g))) = board_size g"
    using wf_length_row [OF wf mod_in_board [OF r]] pos by simp
  from out r have "col mv < - board_size g \<or> board_size g \<le> col mv" by linarith
  then have "getitem (current_moves g ! nat (row mv mod board_size g)) (col mv) = Inl IndexError"
    by (intro getitem_out_of_range) (simp add: lenr)
  then show ?thesis
    by (simp add: is_valid_move_def cell_def g1)
qed

lemma get_winner_in_progress_iff:
  assumes wf: "well_formed g" and inb: "in_board g r" "in_board g c"
    and sync: "has_winner g \<longleftrightarrow> (\<exists>w combo. get_winner g = Inr (Some w, combo) \<and> w \<noteq> ''TIE'')"
  shows "(\<not> has_winner g \<and> label_at g r c = [])
           \<longleftrightarrow> (label_at g r c = [] \<and> get_winner g = Inr (None, []))"
proof (cases "label_at g r c = []")
  case False
  then show ?thesis by simp
next
  case True
  then have nf: "\<not> board_full g"
    using board_full_label_at [OF wf _ inb] by blast
  show ?thesis
  proof (cases "find (\<lambda>combo. line_all g ''X'' combo \<or> line_all g ''O'' combo) (winning_combos g)")
    case None
    then have "get_winner g = Inr (None, [])"
      using nf by (simp add: get_winner_wf [OF wf])
    then show ?thesis using sync True by simp
  next
    case (Some combo)
    then have gw: "get_winner g = Inr (Some (if line_all g ''X'' combo then ''X'' else ''Y''), combo)"
      by (simp add: get_winner_wf [OF wf])
    then have "has_winner g" using sync by simp
    then show ?thesis using gw by simp
  qed
qed

lemma minimax_terminal:
  assumes "get_winner g = Inr (winner, combo)" "heuristic_evaluation g = Inr h"
    and "max_depth = depth \<or> winner \<noteq> None"
  shows "minimax (Suc fuel) g is_maximizing alpha beta max_depth depth =
           Inr (Fin (if winner = Some ''X'' then - 10 + depth
                     else if winner = Some ''O'' then 10 - depth
                     else if winner = Some ''TIE'' then 0
                     else h), g)"
  using assms by auto

subsection \<open>The search restores the board\<close>

lemma filter_update_count:
  "i < length xs \<Longrightarrow> P (xs ! i) \<Longrightarrow> \<not> P v
     \<Longrightarrow> Suc (length (filter P (xs[i := v]))) = length (filter P xs)"
proof (induction xs arbitrary: i)
  case Nil
  then show ?case by simp
next
  case (Cons x xs)
  show ?case
  proof (cases i)
    case 0
    with Cons.prems show ?thesis by simp
  next
    case (Suc k)
    with Cons.prems Cons.IH [of k] show ?thesis by simp
  qed
qed

lemma sum_list_update_Suc:
  "i < length xs \<Longrightarrow> Suc (f v) = f (xs ! i)
     \<Longrightarrow> Suc (sum_list (map f (xs[i := v]))) = sum_list (map (f :: 'a \<Rightarrow> nat) xs)"
proof (induction xs arbitrary: i)
  case Nil
  then show ?case by simp
next
  case (Cons x xs)
  show ?case
  proof (cases i)
    case 0
    with Cons.prems show ?thesis by simp
  next
    case (Suc k)
    with Cons.prems Cons.IH [of k] show ?thesis by simp
  qed
qed

lemma empties_put:
  assumes "well_formed g" "in_board g r" "in_board g c" "label_at g r c = []" "l \<noteq> []"
  shows "Suc (empties (put g r c l)) = empties g"
proof -
  let ?b = "current_moves g"
  let ?P = "\<lambda>m. label m = []"
  have r: "nat r < length ?b"
    using assms(2) wf_length [OF assms(1)] by (simp add: in_board_def)
  have c: "nat c < length (?b ! nat r)"
    using assms(3) wf_length_row [OF assms(1,2)] by (simp add: in_board_def)
  have "Suc (length (filter ?P ((?b ! nat r)[nat c := Move r c l]))) = length (filter ?P (?b ! nat r))"
    using c assms(4,5) by (intro filter_update_count) (simp_all add: label_at_def)
  then show ?thesis
    unfolding empties_def put_def using r
    by (simp add: sum_list_update_Suc [where f = "\<lambda>rw. length (filter ?P rw)"])
qed

lemma not_full_empty_cell:
  assumes "well_formed g" "\<not> board_full g"
  shows "\<exists>r c. in_board g r \<and> in_board g c \<and> label_at g r c = []"
proof -
  let ?b = "current_moves g"
  from assms(2) obtain i j where i: "i < length ?b" and j: "j < length (?b ! i)"
    and e: "label (?b ! i ! j) = []"
    by (auto simp: board_full_def list_all_length)
  have li: "int i < board_size g" using i wf_length [OF assms(1)] by simp
  then have ib: "in_board g (int i)" by (simp add: in_board_def)
  have "int j < board_size g" using j wf_length_row [OF assms(1) ib] by simp
  then have "in_board g (int j)" by (simp add: in_board_def)
  with ib e have "in_board g (int i) \<and> in_board g (int j) \<and> label_at g (int i) (int j) = []"
    by (simp add: label_at_def)
  then show ?thesis by blast
qed

lemma max_Fin: "best = NegInf \<or> finite_score best \<Longrightarrow> finite_score (max best (Fin s))"
  by (cases best) (auto simp: finite_score_def max_def)

lemma min_Fin: "best = PosInf \<or> finite_score best \<Longrightarrow> finite_score (min best (Fin s))"
  by (cases best) (auto simp: finite_score_def min_def)

lemma undo_put:
  assumes "well_formed g" "in_board g r" "in_board g c" "label_at g r c = []"
  shows "set_cell (put g r c l) r c (Move r c []) = Inr g"
proof -
  have "set_cell (put g r c l) r c (Move r c []) = Inr (put (put g r c l) r c [])"
    using assms(2,3) by (intro set_cell_wf wf_put [OF assms(1,2,3)]) simp_all
  then show ?thesis by (simp add: put_undo [OF assms])
qed

lemma max_cols_restores:
  assumes wf: "well_formed g" and r: "in_board g r" and ok: "child_ok child g ''O''"
  shows "\<forall>c \<in> set cs. in_board g c \<Longrightarrow> best = NegInf \<or> finite_score best \<Longrightarrow>
         \<exists>best' alpha'. max_cols child r cs g best alpha beta = Inr (g, best', alpha')
            \<and> (best' = NegInf \<or> finite_score best')
            \<and> (finite_score best \<or> (\<exists>c \<in> set cs. label_at g r c = []) \<longrightarrow> finite_score best')"
proof (induction cs arbitrary: best alpha)
  case Nil
  then show ?case by simp
next
  case (Cons c cs)
  then have c: "in_board g c" and rest: "\<forall>c \<in> set cs. in_board g c" by simp_all
  have rd: "cell g r c = Inr (current_moves g ! nat r ! nat c)"
    by (rule cell_wf [OF wf r c])
  show ?case
  proof (cases "label_at g r c = []")
    case False
    then have "max_cols child r (c # cs) g best alpha beta = max_cols child r cs g best alpha beta"
      by (simp add: rd label_at_def)
    with Cons.IH [OF rest Cons.prems(2), of alpha] False show ?thesis by auto
  next
    case True
    from ok r c True obtain s where
      ch: "child (put g r c ''O'') alpha beta = Inr (Fin s, put g r c ''O'')"
      unfolding child_ok_def by blast
    let ?best = "max best (Fin s)"
    let ?alpha = "max alpha ?best"
    have fin: "finite_score ?best" by (rule max_Fin [OF Cons.prems(2)])
    have step: "max_cols child r (c # cs) g best alpha beta =
                  (if beta \<le> ?alpha then Inr (g, ?best, ?alpha)
                   else max_cols child r cs g ?best ?alpha beta)"
      using True
      by (simp add: rd label_at_def set_cell_wf [OF wf r c] ch undo_put [OF wf r c True] Let_def)
    show ?thesis
    proof (cases "beta \<le> ?alpha")
      case True
      with step fin show ?thesis by simp
    next
      case False
      from Cons.IH [OF rest, of ?best ?alpha] fin
      obtain best' alpha' where "max_cols child r cs g ?best ?alpha beta = Inr (g, best', alpha')"
        and "finite_score best'" by blast
      with step False show ?thesis by simp
    qed
  qed
qed

lemma max_rows_restores:
  assumes wf: "well_formed g" and ok: "child_ok child g ''O''"
    and cs: "\<forall>c \<in> set cs. in_board g c"
  shows "\<forall>r \<in> set rs. in_board g r \<Longrightarrow> best = NegInf \<or> finite_score best \<Longrightarrow>
         \<exists>best' alpha'. max_rows child rs cs g best alpha beta = Inr (g, best', alpha')
            \<and> (best' = NegInf \<or> finite_score best')
            \<and> (finite_score best \<or> (\<exists>r \<in> set rs. \<exists>c \<in> set cs. label_at g r c = [])
                  \<longrightarrow> finite_score best')"
proof (induction rs arbitrary: best alpha)
  case Nil
  then show ?case by simp
next
  case (Cons r rs)
  then have r: "in_board g r" and rest: "\<forall>r \<in> set rs. in_board g r" by simp_all
  from max_cols_restores [OF wf r ok cs Cons.prems(2), of alpha beta]
  obtain b1 a1 where row: "max_cols child r cs g best alpha beta = Inr (g, b1, a1)"
    and inv: "b1 = NegInf \<or> finite_score b1"
    and fin: "finite_score best \<or> (\<exists>c \<in> set cs. label_at g r c = []) \<longrightarrow> finite_score b1"
    by blast
  from Cons.IH [OF rest inv, of a1]
  obtain b2 a2 where rows: "max_rows child rs cs g b1 a1 beta = Inr (g, b2, a2)"
    and inv2: "b2 = NegInf \<or> finite_score b2"
    and fin2: "finite_score b1 \<or> (\<exists>r \<in> set rs. \<exists>c \<in> set cs. label_at g r c = [])
                 \<longrightarrow> finite_score b2"
    by blast
  have "max_rows child (r # rs) cs g best alpha beta = Inr (g, b2, a2)"
    by (simp add: row rows)
  moreover have "finite_score best \<or> (\<exists>r' \<in> set (r # rs). \<exists>c \<in> set cs. label_at g r' c = [])
                   \<longrightarrow> finite_score b2"
    using fin fin2 by auto
  ultimately show ?case using inv2 by blast
qed

lemma min_cols_restores:
  assumes wf: "well_formed g" and r: "in_board g r" and ok: "child_ok child g ''X''"
  shows "\<forall>c \<in> set cs. in_board g c \<Longrightarrow> best = PosInf \<or> finite_score best \<Longrightarrow>
         \<exists>best' beta'. min_cols child r cs g best alpha beta = Inr (g, best', beta')
            \<and> (best' = PosInf \<or> finite_score best')
            \<and> (finite_score best \<or> (\<exists>c \<in> set cs. label_at g r c = []) \<longrightarrow> finite_score best')"
proof (induction cs arbitrary: best beta)
  case Nil
  then show ?case by simp
next
  case (Cons c cs)
  then have c: "in_board g c" and rest: "\<forall>c \<in> set cs. in_board g c" by simp_all
  have rd: "cell g r c = Inr (current_moves g ! nat r ! nat c)"
    by (rule cell_wf [OF wf r c])
  show ?case
  proof (cases "label_at g r c = []")
    case False
    then have "min_cols child r (c # cs) g best alpha beta = min_cols child r cs g best alpha beta"
      by (simp add: rd label_at_def)
    with Cons.IH [OF rest Cons.prems(2), of beta] False show ?thesis by auto
  next
    case True
    from ok r c True obtain s where
      ch: "child (put g r c ''X'') alpha beta = Inr (Fin s, put g r c ''X'')"
      unfolding child_ok_def by blast
    let ?best = "min best (Fin s)"
    let ?beta = "min beta ?best"
    have fin: "finite_score ?best" by (rule min_Fin [OF Cons.prems(2)])
    have step: "min_cols child r (c # cs) g best alpha beta =
                  (if ?beta \<le> alpha then Inr (g, ?best, ?beta)
                   else min_cols child r cs g ?best alpha ?beta)"
      using True
      by (simp add: rd label_at_def set_cell_wf [OF wf r c] ch undo_put [OF wf r c True] Let_def)
    show ?thesis
    proof (cases "?beta \<le> alpha")
      case True
      with step fin show ?thesis by simp
    next
      case False
      from Cons.IH [OF rest, of ?best ?beta] fin
      obtain best' beta' where "min_cols child r cs g ?best alpha ?beta = Inr (g, best', beta')"
        and "finite_score best'" by blast
      with step False show ?thesis by simp
    qed
  qed
qed

lemma min_rows_restores:
  assumes wf: "well_formed g" and ok: "child_ok child g ''X''"
    and cs: "\<forall>c \<in> set cs. in_board g c"
  shows "\<forall>r \<in> set rs. in_board g r \<Longrightarrow> best = PosInf \<or> finite_score best \<Longrightarrow>
         \<exists>best' beta'. min_rows child rs cs g best alpha beta = Inr (g, best', beta')
            \<and> (best' = PosInf \<or> finite_score best')
            \<and> (finite_score best \<or> (\<exists>r \<in> set rs. \<exists>c \<in> set cs. label_at g r c = [])
                  \<longrightarrow> finite_score best')"
proof (induction rs arbitrary: best beta)
  case Nil
  then show ?case by simp
next
  case (Cons r rs)
  then have r: "in_board g r" and rest: "\<forall>r \<in> set rs. in_board g r" by simp_all
  from min_cols_restores [OF wf r ok cs Cons.prems(2), of alpha beta]
  obtain b1 a1 where row: "min_cols child r cs g best alpha beta = Inr (g, b1, a1)"
    and inv: "b1 = PosInf \<or> finite_score b1"
    and fin: "finite_score best \<or> (\<exists>c \<in> set cs. label_at g r c = []) \<longrightarrow> finite_score b1"
    by blast
  from Cons.IH [OF rest inv, of a1]
  obtain b2 a2 where rows: "min_rows child rs cs g b1 alpha a1 = Inr (g, b2, a2)"
    and inv2: "b2 = PosInf \<or> finite_score b2"
    and fin2: "finite_score b1 \<or> (\<exists>r \<in> set rs. \<exists>c \<in> set cs. label_at g r c = [])
                 \<longrightarrow> finite_score b2"
    by blast
  have "min_rows child (r # rs) cs g best alpha beta = Inr (g, b2, a2)"
    by (simp add: row rows)
  moreover have "finite_score best \<or> (\<exists>r' \<in> set (r # rs). \<exists>c \<in> set cs. label_at g r' c = [])
                   \<longrightarrow> finite_score b2"
    using fin fin2 by auto
  ultimately show ?case using inv2 by blast
qed

lemma in_board_iff_py_range: "in_board g i \<longleftrightarrow> i \<in> set (py_range (board_size g))"
  by (simp add: set_py_range in_board_def)

lemma get_winner_None_not_full:
  assumes "well_formed g" "get_winner g = Inr (None, combo)"
  shows "\<not> board_full g"
proof
  assume full: "board_full g"
  show False
  proof (cases "find (\<lambda>combo. line_all g ''X'' combo \<or> line_all g ''O'' combo) (winning_combos g)")
    case None
    with full assms(2) show False by (simp add: get_winner_wf [OF assms(1)])
  next
    case (Some line)
    with assms(2) show False by (simp add: get_winner_wf [OF assms(1)])
  qed
qed

lemma Inr_pair_ex: "x = Inr p \<Longrightarrow> \<exists>a b. x = Inr (a, b)"
  by (cases p) simp

lemma get_winner_total:
  assumes "well_formed g"
  shows "\<exists>winner combo. get_winner g = Inr (winner, combo)"
  by (rule Inr_pair_ex [OF get_winner_wf [OF assms]])

lemma heuristic_evaluation_total:
  assumes "well_formed g"
  shows "\<exists>h. heuristic_evaluation g = Inr h"
  using heuristic_evaluation_wf [OF assms] by (rule exI)

lemma minimax_restores:
  "well_formed g \<Longrightarrow> empties g < fuel
     \<Longrightarrow> \<exists>s. minimax fuel g is_maximizing alpha beta max_depth depth = Inr (Fin s, g)"
proof (induction fuel arbitrary: g is_maximizing alpha beta max_depth depth)
  case 0
  then show ?case by simp
next
  case (Suc fuel)
  note wf = Suc.prems(1)
  obtain winner combo where gw: "get_winner g = Inr (winner, combo)"
    using get_winner_total [OF wf] by blast
  obtain h where he: "heuristic_evaluation g = Inr h"
    using heuristic_evaluation_total [OF wf] by blast
  show ?case
  proof (cases "max_depth = depth \<or> winner \<noteq> None")
    case True
    from minimax_terminal [OF gw he True] show ?thesis by blast
  next
    case False
    then have w: "winner = None" and md: "max_depth \<noteq> depth" by simp_all
    have "\<not> board_full g" using get_winner_None_not_full [OF wf] gw w by blast
    from not_full_empty_cell [OF wf this]
    have ex: "\<exists>r \<in> set (py_range (board_size g)). \<exists>c \<in> set (py_range (board_size g)).
                label_at g r c = []"
      by (auto simp: in_board_iff_py_range)
    have ok: "child_ok (\<lambda>g1 a b. minimax fuel g1 im a b max_depth (depth + 1)) g mark"
      if "mark \<noteq> []" for im mark
      unfolding child_ok_def
    proof (intro allI impI)
      fix r c a b
      assume a: "in_board g r \<and> in_board g c \<and> label_at g r c = []"
      then have "Suc (empties (put g r c mark)) = empties g"
        using that by (intro empties_put [OF wf]) simp_all
      with Suc.prems(2) have "empties (put g r c mark) < fuel" by simp
      moreover have "well_formed (put g r c mark)" using a by (intro wf_put [OF wf]) simp_all
      ultimately show "\<exists>s. minimax fuel (put g r c mark) im a b max_depth (depth + 1)
                          = Inr (Fin s, put g r c mark)"
        by (rule Suc.IH [rotated])
    qed
    show ?thesis
    proof (cases is_maximizing)
      case True
      from max_rows_restores [OF wf ok [of "''O''" False] in_board_py_range in_board_py_range,
          of NegInf alpha beta] ex
      obtain best a' where
        "max_rows (\<lambda>g1 a b. minimax fuel g1 False a b max_depth (depth + 1))
           (py_range (board_size g)) (py_range (board_size g)) g NegInf alpha beta = Inr (g, best, a')"
        and "finite_score best" by auto
      then show ?thesis
        using gw w md True by (auto simp: finite_score_def)
    next
      case False
      from min_rows_restores [OF wf ok [of "''X''" True] in_board_py_range in_board_py_range,
          of PosInf alpha beta] ex
      obtain best b' where
        "min_rows (\<lambda>g1 a b. minimax fuel g1 True a b max_depth (depth + 1))
           (py_range (board_size g)) (py_range (board_size g)) g PosInf alpha beta = Inr (g, best, b')"
        and "finite_score best" by auto
      then show ?thesis
        using gw w md False by (auto simp: finite_score_def)
    qed
  qed
qed

subsection \<open>The move selection as a fold over the candidates\<close>

lemma ai_cols_fold:
  assumes wf: "well_formed g" and r: "in_board g r" and fuel: "empties g \<le> fuel"
  shows "\<forall>c \<in> set cs. in_board g c \<Longrightarrow>
         ai_cols fuel ((board_size g)\<^sup>2) cells_left r cs g best_score best_move
           = Inr (g, fold (keep_best (move_score fuel g cells_left)) (empty_in_row g r cs)
                       (best_score, best_move))"
proof (induction cs arbitrary: best_score best_move)
  case Nil
  show ?case by (simp add: empty_in_row_def)
next
  case (Cons c cs)
  then have c: "in_board g c" and rest: "\<forall>c \<in> set cs. in_board g c" by simp_all
  have rd: "cell g r c = Inr (current_moves g ! nat r ! nat c)"
    by (rule cell_wf [OF wf r c])
  show ?case
  proof (cases "label_at g r c = []")
    case False
    then show ?thesis
      using Cons.IH [OF rest] by (simp add: rd label_at_def empty_in_row_def)
  next
    case True
    have "board_size g \<noteq> 0" using r by (auto simp: in_board_def)
    then obtain md where md: "depth_bound ((board_size g)\<^sup>2) cells_left = Inr md"
      by (simp add: depth_bound_def)
    have "Suc (empties (put g r c ''O'')) = empties g"
      by (rule empties_put [OF wf r c True]) simp
    with fuel have "empties (put g r c ''O'') < fuel" by simp
    from minimax_restores [OF wf_put [OF wf r c] this]
    obtain s where mm: "minimax fuel (put g r c ''O'') False NegInf PosInf md 0
                          = Inr (Fin s, put g r c ''O'')"
      by blast
    have sc: "move_score fuel g cells_left (r, c) = Fin s"
      by (simp add: move_score_def md mm)
    have "ai_cols fuel ((board_size g)\<^sup>2) cells_left r (c # cs) g best_score best_move
            = (if best_score < Fin s
               then ai_cols fuel ((board_size g)\<^sup>2) cells_left r cs g (Fin s) (Some (r, c))
               else ai_cols fuel ((board_size g)\<^sup>2) cells_left r cs g best_score best_move)"
      using True
      by (simp add: rd label_at_def set_cell_wf [OF wf r c] md mm undo_put [OF wf r c True])
    then show ?thesis
      using True by (simp add: Cons.IH [OF rest] empty_in_row_def keep_best_def sc)
  qed
qed

lemma ai_rows_fold:
  assumes wf: "well_formed g" and fuel: "empties g \<le> fuel"
    and cs: "\<forall>c \<in> set cs. in_board g c"
  shows "\<forall>r \<in> set rs. in_board g r \<Longrightarrow>
         ai_rows fuel ((board_size g)\<^sup>2) cells_left rs cs g best_score best_move
           = Inr (g, fold (keep_best (move_score fuel g cells_left))
                       (concat (map (\<lambda>r. empty_in_row g r cs) rs)) (best_score, best_move))"
proof (induction rs arbitrary: best_score best_move)
  case Nil
  show ?case by simp
next
  case (Cons r rs)
  then have r: "in_board g r" and rest: "\<forall>r \<in> set rs. in_board g r" by simp_all
  obtain b m where st: "fold (keep_best (move_score fuel g cells_left)) (empty_in_row g r cs)
                          (best_score, best_move) = (b, m)"
    by (cases "fold (keep_best (move_score fuel g cells_left)) (empty_in_row g r cs)
                 (best_score, best_move)")
  show ?case
    by (simp add: ai_cols_fold [OF wf r fuel cs] st Cons.IH [OF rest])
qed

lemma ai_fold:
  assumes "well_formed g" "empties g \<le> fuel"
  shows "ai fuel g cells_left
           = Inr (snd (fold (keep_best (move_score fuel g cells_left)) (empty_cells g) (NegInf, None)), g)"
proof -
  obtain b m where st: "fold (keep_best (move_score fuel g cells_left)) (empty_cells g) (NegInf, None)
                          = (b, m)"
    by (cases "fold (keep_best (move_score fuel g cells_left)) (empty_cells g) (NegInf, None)")
  have "ai_rows fuel ((board_size g)\<^sup>2) cells_left (py_range (board_size g))
          (py_range (board_size g)) g NegInf None = Inr (g, b, m)"
    using ai_rows_fold [OF assms in_board_py_range in_board_py_range, of cells_left NegInf None] st
    by (simp add: empty_cells_def)
  then show ?thesis by (simp add: ai_def st)
qed


lemma set_empty_cells:
  "p \<in> set (empty_cells g)
     \<longleftrightarrow> in_board g (fst p) \<and> in_board g (snd p) \<and> label_at g (fst p) (snd p) = []"
  by (cases p) (auto simp: empty_cells_def empty_in_row_def in_board_iff_py_range)



subsection \<open>More fuel does not change a result\<close>

lemma max_cols_mono:
  assumes "\<And>g a b v. child g a b = Inr v \<Longrightarrow> child' g a b = Inr v"
  shows "max_cols child r cs g best alpha beta = Inr v
           \<Longrightarrow> max_cols child' r cs g best alpha beta = Inr v"
proof (induction cs arbitrary: g best alpha)
  case Nil
  then show ?case by simp
next
  case (Cons c cs)
  show ?case
  proof (cases "cell g r c")
    case (Inl e)
    with Cons.prems show ?thesis by simp
  next
    case (Inr m)
    show ?thesis
    proof (cases "label m = []")
      case False
      with Inr Cons.prems Cons.IH show ?thesis by simp
    next
      case True
      from Cons.prems Inr True obtain g1 where g1: "set_cell g r c (Move r c ''O'') = Inr g1"
        by (cases "set_cell g r c (Move r c ''O'')") simp_all
      from Cons.prems Inr True g1 obtain s g2 where ch: "child g1 alpha beta = Inr (s, g2)"
        by (cases "child g1 alpha beta") auto
      from Cons.prems Inr True g1 ch obtain g3 where g3: "set_cell g2 r c (Move r c []) = Inr g3"
        by (cases "set_cell g2 r c (Move r c [])") simp_all
      have ch': "child' g1 alpha beta = Inr (s, g2)" by (rule assms [OF ch])
      show ?thesis
      proof (cases "beta \<le> max alpha (max best s)")
        case True
        with Cons.prems Inr \<open>label m = []\<close> g1 ch ch' g3 show ?thesis by (simp add: Let_def)
      next
        case False
        with Cons.prems Inr \<open>label m = []\<close> g1 ch g3
        have "max_cols child r cs g3 (max best s) (max alpha (max best s)) beta = Inr v"
          by (simp add: Let_def)
        from Cons.IH [OF this] False Inr \<open>label m = []\<close> g1 ch' g3 show ?thesis
          by (simp add: Let_def)
      qed
    qed
  qed
qed

lemma max_rows_mono:
  assumes "\<And>g a b v. child g a b = Inr v \<Longrightarrow> child' g a b = Inr v"
  shows "max_rows child rs cs g best alpha beta = Inr v
           \<Longrightarrow> max_rows child' rs cs g best alpha beta = Inr v"
proof (induction rs arbitrary: g best alpha)
  case Nil
  then show ?case by simp
next
  case (Cons r rs)
  from Cons.prems obtain g1 b1 a1 where row: "max_cols child r cs g best alpha beta = Inr (g1, b1, a1)"
    by (cases "max_cols child r cs g best alpha beta") auto
  with Cons.prems have "max_rows child rs cs g1 b1 a1 beta = Inr v" by simp
  from Cons.IH [OF this] max_cols_mono [of child child', OF assms row] show ?case by simp
qed

lemma min_cols_mono:
  assumes "\<And>g a b v. child g a b = Inr v \<Longrightarrow> child' g a b = Inr v"
  shows "min_cols child r cs g best alpha beta = Inr v
           \<Longrightarrow> min_cols child' r cs g best alpha beta = Inr v"
proof (induction cs arbitrary: g best beta)
  case Nil
  then show ?case by simp
next
  case (Cons c cs)
  show ?case
  proof (cases "cell g r c")
    case (Inl e)
    with Cons.prems show ?thesis by simp
  next
    case (Inr m)
    show ?thesis
    proof (cases "label m = []")
      case False
      with Inr Cons.prems Cons.IH show ?thesis by simp
    next
      case True
      from Cons.prems Inr True obtain g1 where g1: "set_cell g r c (Move r c ''X'') = Inr g1"
        by (cases "set_cell g r c (Move r c ''X'')") simp_all
      from Cons.prems Inr True g1 obtain s g2 where ch: "child g1 alpha beta = Inr (s, g2)"
        by (cases "child g1 alpha beta") auto
      from Cons.prems Inr True g1 ch obtain g3 where g3: "set_cell g2 r c (Move r c []) = Inr g3"
        by (cases "set_cell g2 r c (Move r c [])") simp_all
      have ch': "child' g1 alpha beta = Inr (s, g2)" by (rule assms [OF ch])
      show ?thesis
      proof (cases "min beta (min best s) \<le> alpha")
        case True
        with Cons.prems Inr \<open>label m = []\<close> g1 ch ch' g3 show ?thesis by (simp add: Let_def)
      next
        case False
        with Cons.prems Inr \<open>label m = []\<close> g1 ch g3
        have "min_cols child r cs g3 (min best s) alpha (min beta (min best s)) = Inr v"
          by (simp add: Let_def)
        from Cons.IH [OF this] False Inr \<open>label m = []\<close> g1 ch' g3 show ?thesis
          by (simp add: Let_def)
      qed
    qed
  qed
qed

lemma min_rows_mono:
  assumes "\<And>g a b v. child g a b = Inr v \<Longrightarrow> child' g a b = Inr v"
  shows "min_rows child rs cs g best alpha beta = Inr v
           \<Longrightarrow> min_rows child' rs cs g best alpha beta = Inr v"
proof (induction rs arbitrary: g best beta)
  case Nil
  then show ?case by simp
next
  case (Cons r rs)
  from Cons.prems obtain g1 b1 a1 where row: "min_cols child r cs g best alpha beta = Inr (g1, b1, a1)"
    by (cases "min_cols child r cs g best alpha beta") auto
  with Cons.prems have "min_rows child rs cs g1 b1 alpha a1 = Inr v" by simp
  from Cons.IH [OF this] min_cols_mono [of child child', OF assms row] show ?case by simp
qed

lemma minimax_fuel_Suc:
  "minimax fuel g is_maximizing alpha beta max_depth depth = Inr v
     \<Longrightarrow> minimax (Suc fuel) g is_maximizing alpha beta max_depth depth = Inr v"
proof (induction fuel arbitrary: g is_maximizing alpha beta max_depth depth v)
  case 0
  then show ?case by simp
next
  case (Suc fuel)
  from Suc.prems obtain winner combo where gw: "get_winner g = Inr (winner, combo)"
    by (cases "get_winner g") auto
  show ?case
  proof (cases "max_depth = depth \<or> winner \<noteq> None")
    case True
    with Suc.prems gw show ?thesis by simp
  next
    case False
    show ?thesis
    proof (cases is_maximizing)
      case True
      let ?rows = "\<lambda>f. max_rows (\<lambda>g1 a b. minimax f g1 False a b max_depth (depth + 1))
                     (py_range (board_size g)) (py_range (board_size g)) g NegInf alpha beta"
      from Suc.prems gw False True obtain g' best a' where r: "?rows fuel = Inr (g', best, a')"
        by (cases "?rows fuel") auto
      have "?rows (Suc fuel) = Inr (g', best, a')"
        by (rule max_rows_mono [OF _ r]) (rule Suc.IH)
      with Suc.prems gw False True r show ?thesis by simp
    next
      case im: False
      let ?rows = "\<lambda>f. min_rows (\<lambda>g1 a b. minimax f g1 True a b max_depth (depth + 1))
                     (py_range (board_size g)) (py_range (board_size g)) g PosInf alpha beta"
      from Suc.prems gw False im obtain g' best b' where r: "?rows fuel = Inr (g', best, b')"
        by (cases "?rows fuel") auto
      have "?rows (Suc fuel) = Inr (g', best, b')"
        by (rule min_rows_mono [OF _ r]) (rule Suc.IH)
      with Suc.prems gw False im r show ?thesis by simp
    qed
  qed
qed

lemma minimax_fuel_mono:
  "fuel \<le> fuel' \<Longrightarrow> minimax fuel g is_maximizing alpha beta max_depth depth = Inr v
     \<Longrightarrow> minimax fuel' g is_maximizing alpha beta max_depth depth = Inr v"
proof (induction fuel' rule: nat_induct_at_least [consumes 1])
  case base
  then show ?case .
next
  case (Suc n)
  then show ?case by (intro minimax_fuel_Suc) simp
qed

lemma move_score_fuel:
  assumes wf: "well_formed g" and fuel: "empties g \<le> fuel" "fuel \<le> fuel'"
    and p: "p \<in> set (empty_cells g)"
  shows "move_score fuel' g cells_left p = move_score fuel g cells_left p"
proof -
  from p have r: "in_board g (fst p)" and c: "in_board g (snd p)"
    and e: "label_at g (fst p) (snd p) = []"
    by (simp_all add: set_empty_cells)
  have "board_size g \<noteq> 0" using r by (auto simp: in_board_def)
  then obtain md where md: "depth_bound ((board_size g)\<^sup>2) cells_left = Inr md"
    by (simp add: depth_bound_def)
  have "Suc (empties (put g (fst p) (snd p) ''O'')) = empties g"
    by (rule empties_put [OF wf r c e]) simp
  with fuel have "empties (put g (fst p) (snd p) ''O'') < fuel" by simp
  from minimax_restores [OF wf_put [OF wf r c] this]
  obtain s where mm: "minimax fuel (put g (fst p) (snd p) ''O'') False NegInf PosInf md 0
                    = Inr (Fin s, put g (fst p) (snd p) ''O'')"
    by blast
  from minimax_fuel_mono [OF fuel(2) mm] mm show ?thesis
    by (simp add: move_score_def md)
qed

lemma ai_fuel_irrelevant:
  assumes wf: "well_formed g" and fuel: "empties g \<le> fuel" "fuel \<le> fuel'"
  shows "ai fuel' g cells_left = ai fuel g cells_left"
proof -
  have "fold (keep_best (move_score fuel' g cells_left)) (empty_cells g) (NegInf, None)
          = fold (keep_best (move_score fuel g cells_left)) (empty_cells g) (NegInf, None)"
  proof (rule fold_cong)
    fix p assume "p \<in> set (empty_cells g)"
    from move_score_fuel [OF wf fuel this]
    show "keep_best (move_score fuel' g cells_left) p = keep_best (move_score fuel g cells_left) p"
      by (simp add: keep_best_def fun_eq_iff)
  qed simp_all
  moreover have "empties g \<le> fuel'" using fuel by simp
  ultimately show ?thesis
    by (simp add: ai_fold [OF wf fuel(1)] ai_fold [OF wf \<open>empties g \<le> fuel'\<close>])
qed

subsection \<open>C1: the terminal scores of minimax\<close>

text \<open>
  C1. The claim gives the terminal scores of \<^verbatim>\<open>minimax\<close>: \<open>10 - d\<close> for a win of
  \<^verbatim>\<open>"O"\<close>, \<open>-10 + d\<close> for a win of \<^verbatim>\<open>"X"\<close>, \<open>0\<close> for a tie, the heuristic at
  the depth bound. The lemma \<open>minimax_terminal\<close> above is the terminal branch as the
  source writes it. On a board with a row of \<^verbatim>\<open>"O"\<close> the winner that
  \<^verbatim>\<open>get_winner\<close> returns is \<^verbatim>\<open>"Y"\<close>; the test \<^verbatim>\<open>winner == "O"\<close> fails, and the
  call at depth 0 with bound 3 returns the heuristic value 0, not \<open>10 - 0\<close>.
\<close>

theorem minimax_O_win_scores_heuristic:
  "get_winner (game_of [[''O'', ''O'', ''O''], [''X'', ''X'', []], [''X'', [], []]])
     = Inr (Some ''Y'', [(0, 0), (0, 1), (0, 2)])
   \<and> minimax 1 (game_of [[''O'', ''O'', ''O''], [''X'', ''X'', []], [''X'', [], []]])
         False NegInf PosInf 3 0
       = Inr (Fin 0, game_of [[''O'', ''O'', ''O''], [''X'', ''X'', []], [''X'', [], []]])"
  by code_simp

subsection \<open>C2: the outcome scan\<close>

text \<open>
  C2. The claim has \<^verbatim>\<open>get_winner\<close> report a line of \<^verbatim>\<open>"O"\<close> as a win of the mark
  \<^verbatim>\<open>"O"\<close>. The lemma \<open>get_winner_wf\<close> above describes the scan: the first combo all
  \<^verbatim>\<open>"X"\<close> or all \<^verbatim>\<open>"O"\<close> decides, a full board without one is a tie, any other
  board is in progress. For the middle row of \<^verbatim>\<open>"O"\<close> below the winner returned is
  the string \<^verbatim>\<open>"Y"\<close>.
\<close>

theorem get_winner_reports_Y:
  "get_winner (game_of [[''X'', ''X'', []], [''O'', ''O'', ''O''], [[], ''X'', []]])
     = Inr (Some ''Y'', [(1, 0), (1, 1), (1, 2)])"
  by code_simp

subsection \<open>C3: the search leaves the board as it was\<close>



subsection \<open>C4: the winning combos\<close>

text \<open>
  C4. For every board size \<open>n \<ge> 1\<close> the constructor succeeds and the combos it stores
  are \<open>2n + 2\<close> lines (the \<open>n\<close> rows, the \<open>n\<close> columns and the two diagonals,
  see \<open>combos_of\<close>); every line has \<open>n\<close> cells, no cell twice; and every cell of
  the board lies on at least two of the lines, counted as entries of the list.
\<close>

theorem winning_combos_count:
  assumes "1 \<le> n"
  shows "\<exists>g. new_game n = Inr g
           \<and> winning_combos g = combos_of (nat n)
           \<and> length (winning_combos g) = nat (2 * n + 2)
           \<and> (\<forall>line \<in> set (winning_combos g). length line = nat n \<and> distinct line)
           \<and> (\<forall>r c. 0 \<le> r \<and> r < n \<and> 0 \<le> c \<and> c < n \<longrightarrow>
                 2 \<le> length (filter (\<lambda>line. (r, c) \<in> set line) (winning_combos g)))"
proof -
  let ?g = "\<lparr>board_size = n, winner_combo = [], current_moves = fresh_board n,
             has_winner = False, winning_combos = combos_of (nat n)\<rparr>"
  have "length (combos_of (nat n)) = nat (2 * n + 2)"
    using assms by (simp add: length_combos_of nat_add_distrib nat_mult_distrib)
  moreover have "\<forall>line \<in> set (combos_of (nat n)). length line = nat n \<and> distinct line"
    using combos_of_line [of "nat n"] by (simp add: good_line_def)
  moreover have "\<forall>r c. 0 \<le> r \<and> r < n \<and> 0 \<le> c \<and> c < n \<longrightarrow>
                 2 \<le> length (filter (\<lambda>line. (r, c) \<in> set line) (combos_of (nat n)))"
  proof (intro allI impI)
    fix r c :: int
    assume "0 \<le> r \<and> r < n \<and> 0 \<le> c \<and> c < n"
    then have "nat r < nat n" "nat c < nat n" "int (nat r) = r" "int (nat c) = c" by auto
    then show "2 \<le> length (filter (\<lambda>line. (r, c) \<in> set line) (combos_of (nat n)))"
      using combos_of_cover [of "nat r" "nat n" "nat c"] by simp
  qed
  ultimately have "new_game n = Inr ?g
           \<and> winning_combos ?g = combos_of (nat n)
           \<and> length (winning_combos ?g) = nat (2 * n + 2)
           \<and> (\<forall>line \<in> set (winning_combos ?g). length line = nat n \<and> distinct line)
           \<and> (\<forall>r c. 0 \<le> r \<and> r < n \<and> 0 \<le> c \<and> c < n \<longrightarrow>
                 2 \<le> length (filter (\<lambda>line. (r, c) \<in> set line) (winning_combos ?g)))"
    by (simp only: new_game_eq game.simps simp_thms)
  then show ?thesis ..
qed

text \<open>The board of size 3: eight lines of three cells.\<close>

theorem winning_combos_count_witness:
  "(1::int) \<le> 3 \<and> (\<exists>g. new_game 3 = Inr g
           \<and> winning_combos g = combos_of (nat 3)
           \<and> length (winning_combos g) = nat (2 * 3 + 2)
           \<and> (\<forall>line \<in> set (winning_combos g). length line = nat 3 \<and> distinct line)
           \<and> (\<forall>r c. 0 \<le> r \<and> r < 3 \<and> 0 \<le> c \<and> c < 3 \<longrightarrow>
                 2 \<le> length (filter (\<lambda>line. (r, c) \<in> set line) (winning_combos g))))"
  using winning_combos_count [of 3] by simp

subsection \<open>C5: the move ai selects\<close>



subsection \<open>C6: the depth bound\<close>



subsection \<open>C7: the heuristic\<close>

text \<open>
  C7. On a well-formed game \<^verbatim>\<open>heuristic_evaluation\<close> raises nothing and returns
  \<open>P - Q\<close>: \<open>P\<close> counts the combos with a cell labelled \<^verbatim>\<open>"O"\<close> and no cell labelled
  \<^verbatim>\<open>"X"\<close>, \<open>Q\<close> the combos with a cell labelled \<^verbatim>\<open>"X"\<close> and no cell labelled
  \<^verbatim>\<open>"O"\<close>; a combo with both marks or with neither is counted in neither. The method
  reads the game and assigns to none of its fields, so the model is a function of the
  game that returns the number only.
\<close>

theorem heuristic_evaluation_counts:
  assumes "well_formed g"
  shows "heuristic_evaluation g =
           Inr (int (length (filter (\<lambda>combo. line_any g ''O'' combo \<and> \<not> line_any g ''X'' combo)
                               (winning_combos g)))
                - int (length (filter (\<lambda>combo. line_any g ''X'' combo \<and> \<not> line_any g ''O'' combo)
                               (winning_combos g))))"
  by (rule heuristic_evaluation_wf [OF assms])

text \<open>
  Three lines are open for \<^verbatim>\<open>"O"\<close> and two for \<^verbatim>\<open>"X"\<close> on the board below.
\<close>

theorem heuristic_evaluation_counts_witness:
  "well_formed (game_of [[''O'', ''X'', []], [[], ''O'', []], [[], [], ''X'']])
   \<and> heuristic_evaluation (game_of [[''O'', ''X'', []], [[], ''O'', []], [[], [], ''X'']]) = Inr 1
   \<and> length (filter (\<lambda>combo. line_any (game_of [[''O'', ''X'', []], [[], ''O'', []], [[], [], ''X'']]) ''O'' combo
                                \<and> \<not> line_any (game_of [[''O'', ''X'', []], [[], ''O'', []], [[], [], ''X'']]) ''X'' combo)
               (winning_combos (game_of [[''O'', ''X'', []], [[], ''O'', []], [[], [], ''X'']]))) = 3
   \<and> length (filter (\<lambda>combo. line_any (game_of [[''O'', ''X'', []], [[], ''O'', []], [[], [], ''X'']]) ''X'' combo
                                \<and> \<not> line_any (game_of [[''O'', ''X'', []], [[], ''O'', []], [[], [], ''X'']]) ''O'' combo)
               (winning_combos (game_of [[''O'', ''X'', []], [[], ''O'', []], [[], [], ''X'']]))) = 2"
proof -
  let ?g = "game_of [[''O'', ''X'', []], [[], ''O'', []], [[], [], ''X'']]"
  have wf: "well_formed ?g" by code_simp
  have p: "length (filter (\<lambda>combo. line_any ?g ''O'' combo \<and> \<not> line_any ?g ''X'' combo)
               (winning_combos ?g)) = 3" by code_simp
  have q: "length (filter (\<lambda>combo. line_any ?g ''X'' combo \<and> \<not> line_any ?g ''O'' combo)
               (winning_combos ?g)) = 2" by code_simp
  from heuristic_evaluation_counts [OF wf] wf p q show ?thesis by simp
qed

subsection \<open>C8: move validation\<close>

text \<open>
  C8, as amended. On a well-formed game of size \<open>n\<close>, for a move with row and column in
  \<open>[0, n)\<close>, \<^verbatim>\<open>is_valid_move\<close> returns true iff the cell is empty and the stored flag
  \<^verbatim>\<open>_has_winner\<close> is clear; when the flag is set exactly if \<^verbatim>\<open>get_winner\<close> reports a
  win, this is: iff the cell is empty and the outcome is in progress. An index in
  \<open>[-n, 0)\<close> is not rejected: the cell counted from the end is read. An index outside
  \<open>[-n, n)\<close> raises \<^verbatim>\<open>IndexError\<close>.
\<close>

theorem is_valid_move_spec:
  assumes "well_formed g"
  shows "(in_board g (row mv) \<and> in_board g (col mv) \<longrightarrow>
            is_valid_move g mv = Inr (\<not> has_winner g \<and> label_at g (row mv) (col mv) = []))
       \<and> (in_board g (row mv) \<and> in_board g (col mv)
            \<and> (has_winner g \<longleftrightarrow> (\<exists>w combo. get_winner g = Inr (Some w, combo) \<and> w \<noteq> ''TIE'')) \<longrightarrow>
            is_valid_move g mv
              = Inr (label_at g (row mv) (col mv) = [] \<and> get_winner g = Inr (None, [])))
       \<and> (- board_size g \<le> row mv \<and> row mv < board_size g
            \<and> - board_size g \<le> col mv \<and> col mv < board_size g \<longrightarrow>
            is_valid_move g mv
              = Inr (\<not> has_winner g
                     \<and> label_at g (row mv mod board_size g) (col mv mod board_size g) = []))
       \<and> (row mv < - board_size g \<or> board_size g \<le> row mv
            \<or> col mv < - board_size g \<or> board_size g \<le> col mv \<longrightarrow>
            is_valid_move g mv = Inl IndexError)"
proof (intro conjI impI)
  assume a: "in_board g (row mv) \<and> in_board g (col mv)"
  then have "- board_size g \<le> row mv" "row mv < board_size g"
    "- board_size g \<le> col mv" "col mv < board_size g"
    "row mv mod board_size g = row mv" "col mv mod board_size g = col mv"
    by (simp_all add: in_board_def)
  with is_valid_move_wrap [OF assms, of mv]
  show "is_valid_move g mv = Inr (\<not> has_winner g \<and> label_at g (row mv) (col mv) = [])"
    by simp
next
  assume a: "in_board g (row mv) \<and> in_board g (col mv)
      \<and> (has_winner g \<longleftrightarrow> (\<exists>w combo. get_winner g = Inr (Some w, combo) \<and> w \<noteq> ''TIE''))"
  then have "- board_size g \<le> row mv" "row mv < board_size g"
    "- board_size g \<le> col mv" "col mv < board_size g"
    "row mv mod board_size g = row mv" "col mv mod board_size g = col mv"
    by (simp_all add: in_board_def)
  with is_valid_move_wrap [OF assms, of mv]
  have "is_valid_move g mv = Inr (\<not> has_winner g \<and> label_at g (row mv) (col mv) = [])"
    by simp
  also have "(\<not> has_winner g \<and> label_at g (row mv) (col mv) = [])
               \<longleftrightarrow> (label_at g (row mv) (col mv) = [] \<and> get_winner g = Inr (None, []))"
    using a by (intro get_winner_in_progress_iff [OF assms]) simp_all
  finally show "is_valid_move g mv
      = Inr (label_at g (row mv) (col mv) = [] \<and> get_winner g = Inr (None, []))" .
next
  assume "- board_size g \<le> row mv \<and> row mv < board_size g
            \<and> - board_size g \<le> col mv \<and> col mv < board_size g"
  then show "is_valid_move g mv
              = Inr (\<not> has_winner g
                     \<and> label_at g (row mv mod board_size g) (col mv mod board_size g) = [])"
    using is_valid_move_wrap [OF assms, of mv] by simp
next
  assume "row mv < - board_size g \<or> board_size g \<le> row mv
            \<or> col mv < - board_size g \<or> board_size g \<le> col mv"
  then show "is_valid_move g mv = Inl IndexError"
    by (rule is_valid_move_fault [OF assms])
qed

text \<open>
  A game in progress with the flag clear: a free cell, a taken cell, a wrapped index and a fault.
\<close>

theorem is_valid_move_spec_witness:
  "well_formed (game_of [[''X'', [], []], [[], ''O'', []], [[], [], []]])
   \<and> in_board (game_of [[''X'', [], []], [[], ''O'', []], [[], [], []]]) 0
   \<and> in_board (game_of [[''X'', [], []], [[], ''O'', []], [[], [], []]]) 1
   \<and> is_valid_move (game_of [[''X'', [], []], [[], ''O'', []], [[], [], []]]) (Move 0 1 ''X'') = Inr True
   \<and> is_valid_move (game_of [[''X'', [], []], [[], ''O'', []], [[], [], []]]) (Move 0 0 ''X'') = Inr False
   \<and> get_winner (game_of [[''X'', [], []], [[], ''O'', []], [[], [], []]]) = Inr (None, [])
   \<and> is_valid_move (game_of [[''X'', [], []], [[], ''O'', []], [[], [], []]]) (Move (- 3) (- 3) ''X'') = Inr False
   \<and> is_valid_move (game_of [[''X'', [], []], [[], ''O'', []], [[], [], []]]) (Move 1 (- 4) ''X'') = Inl IndexError"
proof -
  let ?g = "game_of [[''X'', [], []], [[], ''O'', []], [[], [], []]]"
  have wf: "well_formed ?g" by code_simp
  have inb: "in_board ?g 0" "in_board ?g 1" by code_simp+
  have gw: "get_winner ?g = Inr (None, [])" by code_simp
  have flag: "\<not> has_winner ?g" by code_simp
  have n: "board_size ?g = 3" by code_simp
  have lab: "label_at ?g 0 1 = []" "label_at ?g 0 0 = ''X''" by code_simp+
  have m: "(- 3) mod (3::int) = 0" by simp
  from is_valid_move_spec [OF wf, of "Move 0 1 ''X''"] inb gw flag lab
  have a: "is_valid_move ?g (Move 0 1 ''X'') = Inr True" by simp
  from is_valid_move_spec [OF wf, of "Move 0 0 ''X''"] inb gw flag lab
  have b: "is_valid_move ?g (Move 0 0 ''X'') = Inr False" by simp
  from is_valid_move_spec [OF wf, of "Move (- 3) (- 3) ''X''"] lab flag
  have c: "is_valid_move ?g (Move (- 3) (- 3) ''X'') = Inr False" by (simp add: n m)
  from is_valid_move_spec [OF wf, of "Move 1 (- 4) ''X''"]
  have d: "is_valid_move ?g (Move 1 (- 4) ''X'') = Inl IndexError" by (simp add: n)
  from wf inb a b gw c d show ?thesis by simp
qed

text \<open>
  The claim as stated fails: row 3 of a board of size 3 raises, the indices \<open>(-1, -1)\<close>
  are accepted as the free bottom right cell, and on a board with a completed row whose
  flag was not set a move on a free cell is accepted.
\<close>

theorem is_valid_move_out_of_range_counterexample:
  "is_valid_move (game_of [[''X'', [], []], [[], ''O'', []], [[], [], []]]) (Move 3 0 ''X'') = Inl IndexError
   \<and> is_valid_move (game_of [[''X'', [], []], [[], ''O'', []], [[], [], []]]) (Move (- 1) (- 1) ''X'') = Inr True
   \<and> get_winner (game_of [[''X'', ''X'', ''X''], [''O'', ''O'', []], [[], [], []]])
         = Inr (Some ''X'', [(0, 0), (0, 1), (0, 2)])
   \<and> is_valid_move (game_of [[''X'', ''X'', ''X''], [''O'', ''O'', []], [[], [], []]]) (Move 2 2 ''O'') = Inr True"
  by code_simp

subsection \<open>C9: reset\<close>



subsection \<open>C10: ai on a full board\<close>

text \<open>
  C10. On a well-formed game without an empty cell \<^verbatim>\<open>ai\<close> raises nothing and returns
  \<^verbatim>\<open>None\<close>, whatever \<open>cells_left\<close> is: no cell passes the test of the loop,
  \<^verbatim>\<open>minimax\<close> is never called (any fuel will do, also none), and the board is the one
  before the call.
\<close>

theorem ai_full_board_returns_None:
  assumes "well_formed g" "board_full g"
  shows "ai fuel g cells_left = Inr (None, g)"
  by (simp add: ai_def ai_rows_full [OF assms in_board_py_range in_board_py_range])

text \<open>
  A tied board.
\<close>

theorem ai_full_board_returns_None_witness:
  "well_formed (game_of [[''X'', ''O'', ''X''], [''X'', ''O'', ''O''], [''O'', ''X'', ''X'']])
   \<and> board_full (game_of [[''X'', ''O'', ''X''], [''X'', ''O'', ''O''], [''O'', ''X'', ''X'']])
   \<and> ai 0 (game_of [[''X'', ''O'', ''X''], [''X'', ''O'', ''O''], [''O'', ''X'', ''X'']]) 0
       = Inr (None, game_of [[''X'', ''O'', ''X''], [''X'', ''O'', ''O''], [''O'', ''X'', ''X'']])"
proof -
  let ?g = "game_of [[''X'', ''O'', ''X''], [''X'', ''O'', ''O''], [''O'', ''X'', ''X'']]"
  have wf: "well_formed ?g" by code_simp
  have full: "board_full ?g" by code_simp
  from ai_full_board_returns_None [OF wf full, of 0 0] wf full show ?thesis by simp
qed

end
